theory Spec2Isabelle
  imports Complex_Main
begin

section \<open>Python values, exceptions and callables\<close>

text \<open>
  The module \<^verbatim>\<open>uproot4/source/futures.py\<close> passes arbitrary Python objects around.
  The fragment of them that the executors and futures can tell apart is modelled here:
  \<^verbatim>\<open>None\<close>, booleans, integers, strings and lists.
\<close>

datatype pyval = PyNone | PyBool bool | PyInt int | PyStr string | PyList "pyval list"

text \<open>
  An exception class is its name and its method resolution order; \<^verbatim>\<open>except Exception\<close>
  matches an error exactly when \<^verbatim>\<open>Exception\<close> occurs in the order of its class.
  An exception object carries its class, its arguments and its cause.
\<close>

datatype pycls = PyCls (cls_name: string) (cls_mro: "string list")

datatype pyexc = PyExc (exc_type: pycls) (exc_args: "pyval list") (exc_cause: "pyexc option")

type_synonym traceback = "string list"

text \<open>A raised error travels with the traceback it has at the point where it is observed.\<close>

type_synonym raised = "pyexc \<times> traceback"

type_synonym 'a outcome = "raised + 'a"

definition isinstance_Exception :: "pyexc \<Rightarrow> bool" where
  "isinstance_Exception err = (''Exception'' \<in> set (cls_mro (exc_type err)))"

definition TypeError :: pycls where
  "TypeError = PyCls ''TypeError'' [''TypeError'', ''Exception'', ''BaseException'', ''object'']"

definition ZeroDivisionError :: pycls where
  "ZeroDivisionError = PyCls ''ZeroDivisionError''
     [''ZeroDivisionError'', ''ArithmeticError'', ''Exception'', ''BaseException'', ''object'']"

definition SystemExit :: pycls where
  "SystemExit = PyCls ''SystemExit'' [''SystemExit'', ''BaseException'', ''object'']"

text \<open>
  A callable handed to an executor receives the resource, the positional arguments and
  the keyword arguments. It returns a value or raises, and it may change the resource.
  It is a total function: a task that never returns is outside the model.
\<close>

type_synonym 'r callable = "'r \<Rightarrow> pyval list \<Rightarrow> (string \<times> pyval) list \<Rightarrow> pyval outcome \<times> 'r"

text \<open>
  A resource is opaque to this module but for \<^verbatim>\<open>__enter__\<close> and \<^verbatim>\<open>__exit__\<close>, which
  are parameters of the model.
\<close>

record 'r resource_protocol =
  res_enter :: "'r \<Rightarrow> pyval outcome \<times> 'r"
  res_exit :: "'r \<Rightarrow> pyval \<Rightarrow> pyval \<Rightarrow> pyval \<Rightarrow> pyval outcome \<times> 'r"

type_synonym timeout = "real option"

section \<open>TrivialFuture\<close>

record 'v TrivialFuture =
  t_result :: 'v

definition TrivialFuture_init :: "'v \<Rightarrow> 'v TrivialFuture" where
  "TrivialFuture_init result = \<lparr>t_result = result\<rparr>"

definition TrivialFuture_cancel :: "'v TrivialFuture \<Rightarrow> bool" where
  "TrivialFuture_cancel self = False"

definition TrivialFuture_cancelled :: "'v TrivialFuture \<Rightarrow> bool" where
  "TrivialFuture_cancelled self = False"

definition TrivialFuture_running :: "'v TrivialFuture \<Rightarrow> bool" where
  "TrivialFuture_running self = False"

definition TrivialFuture_done :: "'v TrivialFuture \<Rightarrow> bool" where
  "TrivialFuture_done self = True"

definition TrivialFuture_result :: "'v TrivialFuture \<Rightarrow> timeout \<Rightarrow> 'v" where
  "TrivialFuture_result self timeout = t_result self"

definition TrivialFuture_exception :: "'v TrivialFuture \<Rightarrow> timeout \<Rightarrow> pyval" where
  "TrivialFuture_exception self timeout = PyNone"

text \<open>
  \<^verbatim>\<open>add_done_callback\<close> returns \<^verbatim>\<open>fn(self)\<close>. A callback that acts on its
  surroundings is a function of the future into a transformer of those surroundings.
\<close>

definition TrivialFuture_add_done_callback :: "'v TrivialFuture \<Rightarrow> ('v TrivialFuture \<Rightarrow> 'b) \<Rightarrow> 'b" where
  "TrivialFuture_add_done_callback self fn = fn self"

text \<open>
  No method of the class assigns to \<^verbatim>\<open>self\<close>; a sequence of calls on one future is
  therefore a sequence of calls on one value.
\<close>

datatype tcall = Call_cancel | Call_cancelled | Call_running | Call_done
  | Call_result timeout | Call_exception timeout

datatype 'v tanswer = Ans_bool bool | Ans_value 'v | Ans_py pyval

fun TrivialFuture_call :: "'v TrivialFuture \<Rightarrow> tcall \<Rightarrow> 'v tanswer" where
  "TrivialFuture_call self Call_cancel = Ans_bool (TrivialFuture_cancel self)"
| "TrivialFuture_call self Call_cancelled = Ans_bool (TrivialFuture_cancelled self)"
| "TrivialFuture_call self Call_running = Ans_bool (TrivialFuture_running self)"
| "TrivialFuture_call self Call_done = Ans_bool (TrivialFuture_done self)"
| "TrivialFuture_call self (Call_result t) = Ans_value (TrivialFuture_result self t)"
| "TrivialFuture_call self (Call_exception t) = Ans_py (TrivialFuture_exception self t)"

text \<open>
  What the specification expects each call to answer on a future built from \<open>r\<close>
  (not taken from the code).
\<close>

fun TrivialFuture_expected_answer :: "'v \<Rightarrow> tcall \<Rightarrow> 'v tanswer" where
  "TrivialFuture_expected_answer r Call_cancel = Ans_bool False"
| "TrivialFuture_expected_answer r Call_cancelled = Ans_bool False"
| "TrivialFuture_expected_answer r Call_running = Ans_bool False"
| "TrivialFuture_expected_answer r Call_done = Ans_bool True"
| "TrivialFuture_expected_answer r (Call_result t) = Ans_value r"
| "TrivialFuture_expected_answer r (Call_exception t) = Ans_py PyNone"

section \<open>ResourceExecutor\<close>

record 'r ResourceExecutor =
  re_resource :: 'r

definition ResourceExecutor_init :: "'r \<Rightarrow> 'r ResourceExecutor" where
  "ResourceExecutor_init resource = \<lparr>re_resource = resource\<rparr>"

definition ResourceExecutor_num_workers :: "'r ResourceExecutor \<Rightarrow> nat" where
  "ResourceExecutor_num_workers self = 0"

definition ResourceExecutor_enter ::
  "'r resource_protocol \<Rightarrow> 'r ResourceExecutor \<Rightarrow> pyval outcome \<times> 'r ResourceExecutor" where
  "ResourceExecutor_enter P self =
     (case res_enter P (re_resource self) of
        (Inl e, r') \<Rightarrow> (Inl e, self\<lparr>re_resource := r'\<rparr>)
      | (Inr _, r') \<Rightarrow> (Inr PyNone, self\<lparr>re_resource := r'\<rparr>))"

text \<open>
  \<^verbatim>\<open>__exit__(self, exception_type, exception_value, traceback)\<close> has three required
  positional parameters. Python checks the arguments of a call before the body runs:
  a call with another number of positional arguments raises \<^verbatim>\<open>TypeError\<close> and the body,
  hence the resource's \<^verbatim>\<open>__exit__\<close>, does not run. The text of the message is not
  modelled.
\<close>

definition arity_error :: "string \<Rightarrow> raised" where
  "arity_error callee = (PyExc TypeError [] None, [callee])"

text \<open>
  A method \<^verbatim>\<open>def m(self, p, *args, **kwargs)\<close> binds \<^verbatim>\<open>self\<close> and \<^verbatim>\<open>p\<close> to its
  first positional arguments. A keyword argument of the call that bears the name of one
  of these parameters would bind it a second time: the call raises \<^verbatim>\<open>TypeError\<close> and
  the body does not run.
\<close>

definition rebinds :: "string list \<Rightarrow> (string \<times> pyval) list \<Rightarrow> bool" where
  "rebinds params kwargs = list_ex (\<lambda>k. k \<in> set params) (map fst kwargs)"

definition ResourceExecutor_exit ::
  "'r resource_protocol \<Rightarrow> 'r ResourceExecutor \<Rightarrow> pyval list \<Rightarrow> pyval outcome \<times> 'r ResourceExecutor" where
  "ResourceExecutor_exit P self call_args =
     (case call_args of
        [exception_type, exception_value, traceback] \<Rightarrow>
          (case res_exit P (re_resource self) exception_type exception_value traceback of
             (Inl e, r') \<Rightarrow> (Inl e, self\<lparr>re_resource := r'\<rparr>)
           | (Inr _, r') \<Rightarrow> (Inr PyNone, self\<lparr>re_resource := r'\<rparr>))
      | _ \<Rightarrow> (Inl (arity_error ''__exit__''), self))"

definition ResourceExecutor_submit ::
  "'r ResourceExecutor \<Rightarrow> 'r callable \<Rightarrow> pyval list \<Rightarrow> (string \<times> pyval) list
     \<Rightarrow> (pyval TrivialFuture) outcome \<times> 'r ResourceExecutor" where
  "ResourceExecutor_submit self fn args kwargs =
     (if rebinds [''self'', ''fn''] kwargs then (Inl (arity_error ''submit''), self)
      else
        (case fn (re_resource self) args kwargs of
           (Inl e, r') \<Rightarrow> (Inl e, self\<lparr>re_resource := r'\<rparr>)
         | (Inr v, r') \<Rightarrow> (Inr (TrivialFuture_init v), self\<lparr>re_resource := r'\<rparr>)))"

text \<open>
  \<^verbatim>\<open>map(self, func, *iterables)\<close> is a generator function: calling it runs nothing and
  returns a generator that remembers \<^verbatim>\<open>func\<close> and the tuple \<^verbatim>\<open>iterables\<close> of the
  positional arguments. Each \<^verbatim>\<open>next\<close> resumes the loop \<^verbatim>\<open>for x in iterables\<close>, whose
  \<open>x\<close> ranges over the members of that tuple. An error raised by \<^verbatim>\<open>func\<close> leaves the
  generator finished.
\<close>

datatype 'a gen_result = Yield 'a | StopIteration | GenRaise raised

record 'r map_generator =
  mg_func :: "'r callable"
  mg_pending :: "pyval list"

definition ResourceExecutor_map :: "'r callable \<Rightarrow> pyval list \<Rightarrow> 'r map_generator" where
  "ResourceExecutor_map func iterables = \<lparr>mg_func = func, mg_pending = iterables\<rparr>"

definition ResourceExecutor_map_next ::
  "'r map_generator \<Rightarrow> 'r ResourceExecutor
     \<Rightarrow> pyval gen_result \<times> 'r map_generator \<times> 'r ResourceExecutor" where
  "ResourceExecutor_map_next g self =
     (case mg_pending g of
        [] \<Rightarrow> (StopIteration, g, self)
      | x # xs \<Rightarrow>
          (case mg_func g (re_resource self) [x] [] of
             (Inl e, r') \<Rightarrow> (GenRaise e, g\<lparr>mg_pending := []\<rparr>, self\<lparr>re_resource := r'\<rparr>)
           | (Inr v, r') \<Rightarrow> (Yield v, g\<lparr>mg_pending := xs\<rparr>, self\<lparr>re_resource := r'\<rparr>)))"

definition ResourceExecutor_shutdown ::
  "'r resource_protocol \<Rightarrow> 'r ResourceExecutor \<Rightarrow> bool \<Rightarrow> pyval outcome \<times> 'r ResourceExecutor" where
  "ResourceExecutor_shutdown P self wait = ResourceExecutor_exit P self []"

section \<open>TaskFuture\<close>

text \<open>\<^verbatim>\<open>sys.exc_info()\<close> in a handler: the class of the error, the error, its traceback.\<close>

type_synonym excinfo = "pycls \<times> pyexc \<times> traceback"

definition sys_exc_info :: "raised \<Rightarrow> excinfo" where
  "sys_exc_info r = (exc_type (fst r), fst r, snd r)"

record 'r TaskFuture =
  f_task :: "'r callable"
  f_args :: "pyval list"
  f_kwargs :: "(string \<times> pyval) list"
  f_finished :: bool
  f_result :: pyval
  f_excinfo :: "excinfo option"

definition TaskFuture_init ::
  "'r callable \<Rightarrow> pyval list \<Rightarrow> (string \<times> pyval) list \<Rightarrow> 'r TaskFuture" where
  "TaskFuture_init task args kwargs =
     \<lparr>f_task = task, f_args = args, f_kwargs = kwargs,
      f_finished = False, f_result = PyNone, f_excinfo = None\<rparr>"

text \<open>
  The call \<^verbatim>\<open>TaskFuture(task, *args, **kwargs)\<close>: the arguments are bound to
  \<^verbatim>\<open>__init__(self, task, *args, **kwargs)\<close>, then the body above runs.
\<close>

definition TaskFuture_new ::
  "'r callable \<Rightarrow> pyval list \<Rightarrow> (string \<times> pyval) list \<Rightarrow> 'r TaskFuture outcome" where
  "TaskFuture_new task args kwargs =
     (if rebinds [''self'', ''task''] kwargs then Inl (arity_error ''__init__'')
      else Inr (TaskFuture_init task args kwargs))"

text \<open>
  \<^verbatim>\<open>threading.Event.wait(timeout)\<close>, for a flag that keeps its value while the call
  waits: with the flag set it returns \<^verbatim>\<open>True\<close> at once; with the flag clear it returns
  \<^verbatim>\<open>False\<close> when the timeout expires, and does not return when there is no timeout.
\<close>

definition Event_wait :: "bool \<Rightarrow> timeout \<Rightarrow> bool option" where
  "Event_wait flag timeout =
     (if flag then Some True else (case timeout of None \<Rightarrow> None | Some t \<Rightarrow> Some False))"

text \<open>A call that may block: it does not return, returns a value, or raises.\<close>

datatype 'a blocking = Blocks | Returns 'a | Raises raised

text \<open>
  \<^verbatim>\<open>result\<close> discards what \<^verbatim>\<open>wait\<close> returns and reads the two slots. The flag
  \<^verbatim>\<open>uproot4._util.py2\<close> is a parameter; both ways of raising raise the object
  \<^verbatim>\<open>err\<close> with the traceback \<^verbatim>\<open>trc\<close>. \<open>Raises (err, trc)\<close> records these two operands
  of the \<^verbatim>\<open>raise\<close>; the frame of \<^verbatim>\<open>result\<close> that Python adds while the error leaves the
  method is not modelled.
\<close>

definition TaskFuture_result :: "bool \<Rightarrow> 'r TaskFuture \<Rightarrow> timeout \<Rightarrow> pyval blocking" where
  "TaskFuture_result py2 self timeout =
     (case Event_wait (f_finished self) timeout of
        None \<Rightarrow> Blocks
      | Some _ \<Rightarrow>
          (case f_excinfo self of
             None \<Rightarrow> Returns (f_result self)
           | Some (cls, err, trc) \<Rightarrow> (if py2 then Raises (err, trc) else Raises (err, trc))))"

section \<open>ThreadResourceWorker and ThreadResourceExecutor\<close>

text \<open>
  The executor, its queue, its worker threads and the futures it has created form one
  shared state. Futures live in a heap and are referred to by their index, since the
  caller, the queue and a worker hold the same object. The queue can hold any object:
  \<^verbatim>\<open>None\<close>, a TaskFuture, or something else.
\<close>

datatype qitem = QNone | QFuture nat | QOther pyval

text \<open>
  Where a worker thread stands in \<^verbatim>\<open>run\<close>: waiting in \<^verbatim>\<open>get\<close>; holding a future it
  has dequeued and checked; having written one slot of it, before \<^verbatim>\<open>_finished.set()\<close>;
  returned from \<^verbatim>\<open>run\<close> after a \<^verbatim>\<open>None\<close>; or terminated by an error that left
  \<^verbatim>\<open>run\<close>, the failed assertion or an error of the task that \<^verbatim>\<open>except Exception\<close>
  does not match.
\<close>

datatype crash = AssertionFailed | Uncaught raised

datatype pc = Waiting | Holding nat | Filled nat | Stopped | Crashed crash

record 'r worker =
  w_resource :: 'r
  w_pc :: pc

definition is_alive :: "'r worker \<Rightarrow> bool" where
  "is_alive w = (case w_pc w of Waiting \<Rightarrow> True | Holding a \<Rightarrow> True | Filled a \<Rightarrow> True
                 | Stopped \<Rightarrow> False | Crashed c \<Rightarrow> False)"

record 'r ThreadResourceExecutor =
  work_queue :: "qitem list"
  workers :: "'r worker list"
  heap :: "'r TaskFuture list"

text \<open>What a worker does to a future, in the order in which it does it.\<close>

datatype event = Called nat "pyval outcome" | WroteResult nat pyval
  | WroteExcinfo nat excinfo | SetFinished nat

text \<open>
  One step of worker \<open>i\<close> in \<^verbatim>\<open>run\<close>; \<open>None\<close> when the worker cannot move (it waits on
  an empty queue or its thread has ended). The steps are: \<^verbatim>\<open>get\<close> with the test for
  \<^verbatim>\<open>None\<close> and the assertion; the call of the task with the assignment to one slot;
  \<^verbatim>\<open>_finished.set()\<close>.
\<close>

definition ThreadResourceWorker_run_step ::
  "nat \<Rightarrow> 'r ThreadResourceExecutor \<Rightarrow> (event list \<times> 'r ThreadResourceExecutor) option" where
  "ThreadResourceWorker_run_step i s =
     (if i < length (workers s) then
        (let w = workers s ! i in
         case w_pc w of
           Waiting \<Rightarrow>
             (case work_queue s of
                [] \<Rightarrow> None
              | future # rest \<Rightarrow>
                  (case future of
                     QNone \<Rightarrow>
                       Some ([], s\<lparr>work_queue := rest,
                                   workers := (workers s)[i := w\<lparr>w_pc := Stopped\<rparr>]\<rparr>)
                   | QFuture a \<Rightarrow>
                       Some ([], s\<lparr>work_queue := rest,
                                   workers := (workers s)[i := w\<lparr>w_pc := Holding a\<rparr>]\<rparr>)
                   | QOther v \<Rightarrow>
                       Some ([], s\<lparr>work_queue := rest,
                                   workers := (workers s)[i := w\<lparr>w_pc := Crashed AssertionFailed\<rparr>]\<rparr>)))
         | Holding a \<Rightarrow>
             (if a < length (heap s) then
                (let future = heap s ! a in
                 case f_task future (w_resource w) (f_args future) (f_kwargs future) of
                   (Inr v, r') \<Rightarrow>
                     Some ([Called a (Inr v), WroteResult a v],
                           s\<lparr>heap := (heap s)[a := future\<lparr>f_result := v\<rparr>],
                             workers := (workers s)[i := \<lparr>w_resource = r', w_pc = Filled a\<rparr>]\<rparr>)
                 | (Inl e, r') \<Rightarrow>
                     (if isinstance_Exception (fst e) then
                        Some ([Called a (Inl e), WroteExcinfo a (sys_exc_info e)],
                              s\<lparr>heap := (heap s)[a := future\<lparr>f_excinfo := Some (sys_exc_info e)\<rparr>],
                                workers := (workers s)[i := \<lparr>w_resource = r', w_pc = Filled a\<rparr>]\<rparr>)
                      else
                        Some ([Called a (Inl e)],
                              s\<lparr>workers := (workers s)[i := \<lparr>w_resource = r', w_pc = Crashed (Uncaught e)\<rparr>]\<rparr>)))
              else None)
         | Filled a \<Rightarrow>
             (if a < length (heap s) then
                Some ([SetFinished a],
                      s\<lparr>heap := (heap s)[a := (heap s ! a)\<lparr>f_finished := True\<rparr>],
                        workers := (workers s)[i := w\<lparr>w_pc := Waiting\<rparr>]\<rparr>)
              else None)
         | Stopped \<Rightarrow> None
         | Crashed c \<Rightarrow> None)
      else None)"

text \<open>Scheduling worker \<open>i\<close> once: it takes a step if it can.\<close>

definition work :: "nat \<Rightarrow> 'r ThreadResourceExecutor \<Rightarrow> event list \<times> 'r ThreadResourceExecutor" where
  "work i s = (case ThreadResourceWorker_run_step i s of None \<Rightarrow> ([], s) | Some r \<Rightarrow> r)"

fun run_workers :: "nat list \<Rightarrow> 'r ThreadResourceExecutor \<Rightarrow> 'r ThreadResourceExecutor" where
  "run_workers [] s = s"
| "run_workers (i # sched) s = run_workers sched (snd (work i s))"

definition ThreadResourceExecutor_init :: "'r list \<Rightarrow> 'r ThreadResourceExecutor" where
  "ThreadResourceExecutor_init resources =
     \<lparr>work_queue = [],
      workers = map (\<lambda>x. \<lparr>w_resource = x, w_pc = Waiting\<rparr>) resources,
      heap = []\<rparr>"

definition ThreadResourceExecutor_num_workers :: "'r ThreadResourceExecutor \<Rightarrow> nat" where
  "ThreadResourceExecutor_num_workers self = length (workers self)"

text \<open>
  \<^verbatim>\<open>submit(self, fn, *args, **kwargs)\<close> creates the future, puts it on the queue and
  returns it, that is its place in the heap. A keyword argument named \<^verbatim>\<open>self\<close> or
  \<^verbatim>\<open>fn\<close> makes the call of \<^verbatim>\<open>submit\<close> raise, one named \<^verbatim>\<open>task\<close> the call of
  \<^verbatim>\<open>TaskFuture\<close>; nothing is created or enqueued then.
\<close>

definition ThreadResourceExecutor_submit ::
  "'r callable \<Rightarrow> pyval list \<Rightarrow> (string \<times> pyval) list \<Rightarrow> 'r ThreadResourceExecutor
     \<Rightarrow> nat outcome \<times> 'r ThreadResourceExecutor" where
  "ThreadResourceExecutor_submit fn args kwargs self =
     (if rebinds [''self'', ''fn''] kwargs then (Inl (arity_error ''submit''), self)
      else
        (case TaskFuture_new fn args kwargs of
           Inl e \<Rightarrow> (Inl e, self)
         | Inr task \<Rightarrow>
             (Inr (length (heap self)),
              self\<lparr>heap := heap self @ [task],
                   work_queue := work_queue self @ [QFuture (length (heap self))]\<rparr>)))"

text \<open>
  \<^verbatim>\<open>map\<close> is a generator function. Its first \<^verbatim>\<open>next\<close> runs the list comprehension
  \<^verbatim>\<open>[self.submit(func, x) for x in iterables]\<close> over the tuple of positional arguments and
  then waits in \<^verbatim>\<open>result()\<close> of the first future; a \<^verbatim>\<open>next\<close> that finds the future
  unfinished stays blocked there (answer \<open>None\<close>) and is resumed later.
\<close>

fun submit_all ::
  "'r callable \<Rightarrow> pyval list \<Rightarrow> 'r ThreadResourceExecutor
     \<Rightarrow> (nat list) outcome \<times> 'r ThreadResourceExecutor" where
  "submit_all func [] self = (Inr [], self)"
| "submit_all func (x # xs) self =
     (case ThreadResourceExecutor_submit func [x] [] self of
        (Inl e, self') \<Rightarrow> (Inl e, self')
      | (Inr a, self') \<Rightarrow>
          (case submit_all func xs self' of
             (Inl e, self'') \<Rightarrow> (Inl e, self'')
           | (Inr as, self'') \<Rightarrow> (Inr (a # as), self'')))"

datatype 'r pool_generator = PG_created "'r callable" "pyval list" | PG_started "nat list" | PG_finished

definition ThreadResourceExecutor_map :: "'r callable \<Rightarrow> pyval list \<Rightarrow> 'r pool_generator" where
  "ThreadResourceExecutor_map func iterables = PG_created func iterables"

definition map_resume ::
  "bool \<Rightarrow> nat list \<Rightarrow> 'r ThreadResourceExecutor
     \<Rightarrow> pyval gen_result option \<times> 'r pool_generator \<times> 'r ThreadResourceExecutor" where
  "map_resume py2 futures self =
     (case futures of
        [] \<Rightarrow> (Some StopIteration, PG_finished, self)
      | a # rest \<Rightarrow>
          (if a < length (heap self) then
             (case TaskFuture_result py2 (heap self ! a) None of
                Blocks \<Rightarrow> (None, PG_started (a # rest), self)
              | Returns v \<Rightarrow> (Some (Yield v), PG_started rest, self)
              | Raises e \<Rightarrow> (Some (GenRaise e), PG_finished, self))
           else (None, PG_started (a # rest), self)))"

definition ThreadResourceExecutor_map_next ::
  "bool \<Rightarrow> 'r pool_generator \<Rightarrow> 'r ThreadResourceExecutor
     \<Rightarrow> pyval gen_result option \<times> 'r pool_generator \<times> 'r ThreadResourceExecutor" where
  "ThreadResourceExecutor_map_next py2 g self =
     (case g of
        PG_created func iterables \<Rightarrow>
          (case submit_all func iterables self of
             (Inl e, self') \<Rightarrow> (Some (GenRaise e), PG_finished, self')
           | (Inr futures, self') \<Rightarrow> map_resume py2 futures self')
      | PG_started futures \<Rightarrow> map_resume py2 futures self
      | PG_finished \<Rightarrow> (Some StopIteration, PG_finished, self))"

text \<open>
  \<^verbatim>\<open>shutdown\<close>: while some worker is alive, put \<^verbatim>\<open>None\<close> on the queue
  \<^verbatim>\<open>len(self._workers)\<close> times and sleep. What the workers do during one sleep is a
  schedule, a list of worker indices; the list of schedules bounds the number of rounds,
  and \<open>None\<close> says that the loop has not ended within them.
\<close>

definition any_alive :: "'r ThreadResourceExecutor \<Rightarrow> bool" where
  "any_alive self = list_ex is_alive (workers self)"

definition put_sentinels :: "'r ThreadResourceExecutor \<Rightarrow> 'r ThreadResourceExecutor" where
  "put_sentinels self = self\<lparr>work_queue := work_queue self @ replicate (length (workers self)) QNone\<rparr>"

fun shutdown_loop ::
  "nat list list \<Rightarrow> 'r ThreadResourceExecutor \<Rightarrow> 'r ThreadResourceExecutor option" where
  "shutdown_loop [] self = (if any_alive self then None else Some self)"
| "shutdown_loop (sched # scheds) self =
     (if any_alive self then shutdown_loop scheds (run_workers sched (put_sentinels self))
      else Some self)"

text \<open>The flag \<^verbatim>\<open>wait\<close> of \<^verbatim>\<open>shutdown\<close> is not used by its body.\<close>

definition ThreadResourceExecutor_shutdown ::
  "bool \<Rightarrow> nat list list \<Rightarrow> 'r ThreadResourceExecutor \<Rightarrow> 'r ThreadResourceExecutor option" where
  "ThreadResourceExecutor_shutdown wait scheds self = shutdown_loop scheds self"

text \<open>
  An execution of the pool: the caller submits, starts a \<^verbatim>\<open>map\<close>, or runs one round of
  \<^verbatim>\<open>shutdown\<close>, and the workers take steps in between, in any order. The events of the
  workers are collected into a trace. These are all the operations of the executor that
  put something on the queue: \<^verbatim>\<open>__enter__\<close> and \<^verbatim>\<open>__exit__\<close> act on the resources,
  and \<^verbatim>\<open>__exit__\<close> reaches the queue through \<^verbatim>\<open>shutdown\<close> only.
\<close>

datatype 'r action = Submit "'r callable" "pyval list" "(string \<times> pyval) list"
  | MapSubmit "'r callable" "pyval list" | ShutdownRound | Work nat

fun perform :: "'r action \<Rightarrow> 'r ThreadResourceExecutor \<Rightarrow> event list \<times> 'r ThreadResourceExecutor" where
  "perform (Submit fn args kwargs) s = ([], snd (ThreadResourceExecutor_submit fn args kwargs s))"
| "perform (MapSubmit func iterables) s = ([], snd (submit_all func iterables s))"
| "perform ShutdownRound s = ([], if any_alive s then put_sentinels s else s)"
| "perform (Work i) s = work i s"

fun exec ::
  "'r action list \<Rightarrow> event list \<times> 'r ThreadResourceExecutor \<Rightarrow> event list \<times> 'r ThreadResourceExecutor" where
  "exec [] c = c"
| "exec (act # acts) c = exec acts (fst c @ fst (perform act (snd c)), snd (perform act (snd c)))"

definition pool_run :: "'r list \<Rightarrow> 'r action list \<Rightarrow> event list \<times> 'r ThreadResourceExecutor" where
  "pool_run resources acts = exec acts ([], ThreadResourceExecutor_init resources)"

text \<open>The events of a trace that concern the future \<open>a\<close>.\<close>

fun about :: "nat \<Rightarrow> event \<Rightarrow> bool" where
  "about a (Called b out) = (a = b)"
| "about a (WroteResult b v) = (a = b)"
| "about a (WroteExcinfo b x) = (a = b)"
| "about a (SetFinished b) = (a = b)"

definition history :: "nat \<Rightarrow> event list \<Rightarrow> event list" where
  "history a tr = filter (about a) tr"

text \<open>
  The whole life of a future whose task ends with \<open>out\<close>: called, one slot written,
  signalled; or, for an error that \<^verbatim>\<open>except Exception\<close> does not match, called only.
\<close>

fun lifecycle :: "nat \<Rightarrow> pyval outcome \<Rightarrow> event list" where
  "lifecycle a (Inr v) = [Called a (Inr v), WroteResult a v, SetFinished a]"
| "lifecycle a (Inl e) =
     (if isinstance_Exception (fst e)
      then [Called a (Inl e), WroteExcinfo a (sys_exc_info e), SetFinished a]
      else [Called a (Inl e)])"

text \<open>What \<^verbatim>\<open>result()\<close> owes the caller for a task that ended with \<open>out\<close>.\<close>

fun settle :: "pyval outcome \<Rightarrow> pyval blocking" where
  "settle (Inr v) = Returns v"
| "settle (Inl e) = Raises e"

text \<open>Callables and a resource protocol used at concrete inputs.\<close>

definition echo :: "'r callable" where
  "echo r args kwargs = (Inr (PyList args), r)"

definition count_call :: "nat callable" where
  "count_call r args kwargs = (Inr (PyInt (int r)), Suc r)"

definition divide_by_zero :: "'r callable" where
  "divide_by_zero r args kwargs = (Inl (PyExc ZeroDivisionError [PyStr ''division by zero''] None, [''task'']), r)"

definition sys_exit :: "'r callable" where
  "sys_exit r args kwargs = (Inl (PyExc SystemExit [] None, [''task'']), r)"

text \<open>A resource that counts how often it was entered and released.\<close>

definition counting_protocol :: "(nat \<times> nat) resource_protocol" where
  "counting_protocol =
     \<lparr>res_enter = (\<lambda>(n, m). (Inr PyNone, (Suc n, m))),
      res_exit = (\<lambda>(n, m) et ev tb. (Inr PyNone, (n, Suc m)))\<rparr>"

section \<open>Invariants of the pool\<close>

text \<open>
  Every item of the queue is \<^verbatim>\<open>None\<close> or a future of the heap; every worker that holds
  a future holds one of the heap, and no worker has failed the assertion.
\<close>

definition item_ok :: "nat \<Rightarrow> qitem \<Rightarrow> bool" where
  "item_ok n x = (case x of QNone \<Rightarrow> True | QFuture a \<Rightarrow> a < n | QOther v \<Rightarrow> False)"

definition pc_ok :: "nat \<Rightarrow> pc \<Rightarrow> bool" where
  "pc_ok n p = (case p of Holding a \<Rightarrow> a < n | Filled a \<Rightarrow> a < n | Crashed c \<Rightarrow> c \<noteq> AssertionFailed | _ \<Rightarrow> True)"

definition queue_ok :: "'r ThreadResourceExecutor \<Rightarrow> bool" where
  "queue_ok s = list_all (item_ok (length (heap s))) (work_queue s)"

definition held_ok :: "'r ThreadResourceExecutor \<Rightarrow> bool" where
  "held_ok s = list_all (\<lambda>w. pc_ok (length (heap s)) (w_pc w)) (workers s)"

text \<open>
  Worker \<open>i\<close> has dequeued the future \<open>a\<close> and has not yet signalled it.
\<close>

definition holds :: "'r ThreadResourceExecutor \<Rightarrow> nat \<Rightarrow> nat \<Rightarrow> bool" where
  "holds s i a = (i < length (workers s) \<and> (w_pc (workers s ! i) = Holding a \<or> w_pc (workers s ! i) = Filled a))"

text \<open>
  The slots of a future as \<^verbatim>\<open>__init__\<close> leaves them, and the slots of a future after the
  one write of the worker, together with the events \<open>h\<close> of that future so far.
\<close>

definition unfilled :: "'r TaskFuture \<Rightarrow> bool" where
  "unfilled f = (\<not> f_finished f \<and> f_result f = PyNone \<and> f_excinfo f = None)"

definition written :: "nat \<Rightarrow> 'r TaskFuture \<Rightarrow> event list \<Rightarrow> bool" where
  "written a f h =
     ((f_excinfo f = None \<and> h = [Called a (Inr (f_result f)), WroteResult a (f_result f)])
      \<or> (\<exists>e. isinstance_Exception (fst e) \<and> f_result f = PyNone \<and> f_excinfo f = Some (sys_exc_info e)
            \<and> h = [Called a (Inl e), WroteExcinfo a (sys_exc_info e)]))"

definition is_future :: "qitem \<Rightarrow> bool" where
  "is_future x = (case x of QFuture a \<Rightarrow> True | _ \<Rightarrow> False)"

text \<open>
  A future is pending while it is in the queue or held by a worker that has not called
  its task; it is being filled while a worker stands between the write and the signal.
\<close>

definition has_pc :: "'r worker list \<Rightarrow> pc \<Rightarrow> bool" where
  "has_pc ws p = (\<exists>j < length ws. w_pc (ws ! j) = p)"

definition others :: "'r worker list \<Rightarrow> nat \<Rightarrow> pc \<Rightarrow> bool" where
  "others ws i p = (\<exists>j < length ws. j \<noteq> i \<and> w_pc (ws ! j) = p)"

definition pending :: "'r ThreadResourceExecutor \<Rightarrow> nat \<Rightarrow> bool" where
  "pending s a = (QFuture a \<in> set (work_queue s) \<or> has_pc (workers s) (Holding a))"

definition filling :: "'r ThreadResourceExecutor \<Rightarrow> nat \<Rightarrow> bool" where
  "filling s a = has_pc (workers s) (Filled a)"

text \<open>
  The events of a future and its slots agree with where the future stands.
\<close>

definition phase_ok :: "event list \<Rightarrow> 'r ThreadResourceExecutor \<Rightarrow> nat \<Rightarrow> bool" where
  "phase_ok tr s a =
     ((pending s a \<longrightarrow> history a tr = [] \<and> unfilled (heap s ! a))
      \<and> (filling s a \<longrightarrow> \<not> f_finished (heap s ! a) \<and> written a (heap s ! a) (history a tr))
      \<and> (\<not> pending s a \<and> \<not> filling s a \<longrightarrow>
           (f_finished (heap s ! a) \<and> (\<exists>h. history a tr = h @ [SetFinished a] \<and> written a (heap s ! a) h))
         \<or> (unfilled (heap s ! a) \<and> (\<exists>e. \<not> isinstance_Exception (fst e) \<and> history a tr = [Called a (Inl e)]))))"

text \<open>
  The invariant of a trace and a state: besides the above, no future is in the queue
  twice, in the queue and with a worker, or with two workers, and no event concerns a
  future that does not exist yet.
\<close>

definition Inv :: "event list \<times> 'r ThreadResourceExecutor \<Rightarrow> bool" where
  "Inv c = (case c of (tr, s) \<Rightarrow>
     queue_ok s \<and> held_ok s \<and> distinct (filter is_future (work_queue s))
     \<and> (\<forall>i a. holds s i a \<longrightarrow> QFuture a \<notin> set (work_queue s))
     \<and> (\<forall>i j a. holds s i a \<longrightarrow> holds s j a \<longrightarrow> i = j)
     \<and> (\<forall>a < length (heap s). phase_ok tr s a)
     \<and> (\<forall>a \<ge> length (heap s). history a tr = []))"

text \<open>What the assertion of \<^verbatim>\<open>run\<close> and its test for \<^verbatim>\<open>None\<close> accept together.\<close>

definition is_sentinel_or_future :: "qitem \<Rightarrow> bool" where
  "is_sentinel_or_future x = (case x of QNone \<Rightarrow> True | QFuture a \<Rightarrow> True | QOther v \<Rightarrow> False)"

text \<open>
  The number of \<^verbatim>\<open>None\<close> in the queue, and a bound on the steps worker \<open>i\<close> can
  still take before the queue is empty.
\<close>

definition sentinels :: "'r ThreadResourceExecutor \<Rightarrow> nat" where
  "sentinels s = length (filter (\<lambda>x. x = QNone) (work_queue s))"

definition todo :: "'r ThreadResourceExecutor \<Rightarrow> nat \<Rightarrow> nat" where
  "todo s i = 3 * length (work_queue s)
     + (case w_pc (workers s ! i) of Holding a \<Rightarrow> 2 | Filled a \<Rightarrow> 1 | _ \<Rightarrow> 0)"

text \<open>Every recorded call is a call of the task of its future on some resource.\<close>

definition calls_ok :: "event list \<times> 'r ThreadResourceExecutor \<Rightarrow> bool" where
  "calls_ok c = (\<forall>a out. Called a out \<in> set (fst c) \<longrightarrow>
      a < length (heap (snd c))
      \<and> (\<exists>r. out = fst (f_task (heap (snd c) ! a) r (f_args (heap (snd c) ! a)) (f_kwargs (heap (snd c) ! a)))))"


section \<open>Properties of TrivialFuture and ResourceExecutor\<close>

text \<open>
  C9. A TrivialFuture built from \<open>r\<close> answers every call of every sequence of calls the
  same way: \<^verbatim>\<open>done\<close> is true, \<^verbatim>\<open>result\<close> is \<open>r\<close> whatever the timeout, \<^verbatim>\<open>cancel\<close>,
  \<^verbatim>\<open>cancelled\<close> and \<^verbatim>\<open>running\<close> are false, \<^verbatim>\<open>exception\<close> is \<^verbatim>\<open>None\<close>; and
  \<^verbatim>\<open>add_done_callback\<close> acts on the surroundings \<open>w\<close> as one application of the callback
  to the future itself.
\<close>

theorem TrivialFuture_complete:
  "map (TrivialFuture_call (TrivialFuture_init r)) calls = map (TrivialFuture_expected_answer r) calls
   \<and> TrivialFuture_done (TrivialFuture_init r)
   \<and> TrivialFuture_result (TrivialFuture_init r) timeout = r
   \<and> \<not> TrivialFuture_cancel (TrivialFuture_init r)
   \<and> \<not> TrivialFuture_cancelled (TrivialFuture_init r)
   \<and> \<not> TrivialFuture_running (TrivialFuture_init r)
   \<and> TrivialFuture_exception (TrivialFuture_init r) timeout = PyNone
   \<and> TrivialFuture_add_done_callback (TrivialFuture_init r) cb w = cb (TrivialFuture_init r) w"
proof -
  have "TrivialFuture_call (TrivialFuture_init r) c = TrivialFuture_expected_answer r c" for c
    by (cases c)
      (simp_all add: TrivialFuture_cancel_def TrivialFuture_cancelled_def
        TrivialFuture_running_def TrivialFuture_done_def TrivialFuture_result_def
        TrivialFuture_exception_def TrivialFuture_init_def)
  then have "map (TrivialFuture_call (TrivialFuture_init r)) calls = map (TrivialFuture_expected_answer r) calls"
    by simp
  then show ?thesis
    by (simp add: TrivialFuture_cancel_def TrivialFuture_cancelled_def
        TrivialFuture_running_def TrivialFuture_done_def TrivialFuture_result_def
        TrivialFuture_exception_def TrivialFuture_init_def TrivialFuture_add_done_callback_def)
qed

text \<open>
  C8, amended. \<^verbatim>\<open>submit\<close> of the single-resource executor, called with keyword
  arguments none of which is named \<^verbatim>\<open>self\<close> or \<^verbatim>\<open>fn\<close>, evaluates
  \<^verbatim>\<open>fn(resource, *args, **kwargs)\<close> at once: a returned value comes back inside a
  TrivialFuture holding exactly that value, a raised error comes back as the raised error
  of \<^verbatim>\<open>submit\<close> itself, with no future; either way the resource is left as the one call
  of \<^verbatim>\<open>fn\<close> left it. A keyword argument named \<^verbatim>\<open>self\<close> or \<^verbatim>\<open>fn\<close> makes
  \<^verbatim>\<open>submit\<close> raise \<^verbatim>\<open>TypeError\<close> without calling \<^verbatim>\<open>fn\<close>: the executor and its resource
  are left as they were.
\<close>

theorem ResourceExecutor_submit_immediate:
  "(\<not> rebinds [''self'', ''fn''] kwargs \<longrightarrow>
      (fn (re_resource self) args kwargs = (Inr v, r') \<longrightarrow>
         ResourceExecutor_submit self fn args kwargs
           = (Inr (TrivialFuture_init v), self\<lparr>re_resource := r'\<rparr>)
         \<and> TrivialFuture_result (TrivialFuture_init v) None = v)
      \<and> (fn (re_resource self) args kwargs = (Inl e, r') \<longrightarrow>
         ResourceExecutor_submit self fn args kwargs = (Inl e, self\<lparr>re_resource := r'\<rparr>)))
   \<and> (rebinds [''self'', ''fn''] kwargs \<longrightarrow>
      ResourceExecutor_submit self fn args kwargs = (Inl (PyExc TypeError [] None, [''submit'']), self))"
  by (simp add: ResourceExecutor_submit_def TrivialFuture_result_def TrivialFuture_init_def
      arity_error_def)

theorem ResourceExecutor_submit_immediate_witness:
  "\<not> rebinds [''self'', ''fn''] [(''offset'', PyInt 2)]
   \<and> rebinds [''self'', ''fn''] [(''offset'', PyInt 2), (''self'', PyNone)]
   \<and> ResourceExecutor_submit (ResourceExecutor_init (5::nat)) count_call [PyInt 1] [(''offset'', PyInt 2)]
     = (Inr (TrivialFuture_init (PyInt 5)), ResourceExecutor_init 6)
   \<and> ResourceExecutor_submit (ResourceExecutor_init (5::nat)) divide_by_zero [] []
     = (Inl (PyExc ZeroDivisionError [PyStr ''division by zero''] None, [''task'']),
        ResourceExecutor_init 5)
   \<and> ResourceExecutor_submit (ResourceExecutor_init (5::nat)) count_call []
        [(''offset'', PyInt 2), (''self'', PyNone)]
     = (Inl (PyExc TypeError [] None, [''submit'']), ResourceExecutor_init 5)"
  using ResourceExecutor_submit_immediate
    [where fn = count_call and self = "ResourceExecutor_init (5::nat)" and args = "[PyInt 1]"
      and kwargs = "[(''offset'', PyInt 2)]" and v = "PyInt 5" and r' = 6]
    ResourceExecutor_submit_immediate
    [where fn = divide_by_zero and self = "ResourceExecutor_init (5::nat)" and args = "[]"
      and kwargs = "[]" and r' = 5
      and e = "(PyExc ZeroDivisionError [PyStr ''division by zero''] None, [''task''])"]
    ResourceExecutor_submit_immediate
    [where fn = count_call and self = "ResourceExecutor_init (5::nat)" and args = "[]"
      and kwargs = "[(''offset'', PyInt 2), (''self'', PyNone)]"]
  by (simp add: count_call_def divide_by_zero_def ResourceExecutor_init_def rebinds_def)

text \<open>
  \<^verbatim>\<open>executor.submit(count_call, fn=1)\<close>: the function, called with the resource and the
  keyword argument, returns a value; \<^verbatim>\<open>submit\<close> raises \<^verbatim>\<open>TypeError\<close>, an error the
  function did not raise, returns no future and leaves the resource untouched.
\<close>

theorem ResourceExecutor_submit_immediate_counterexample:
  "count_call (5::nat) [] [(''fn'', PyInt 1)] = (Inr (PyInt 5), 6)
   \<and> ResourceExecutor_submit (ResourceExecutor_init (5::nat)) count_call [] [(''fn'', PyInt 1)]
     = (Inl (PyExc TypeError [] None, [''submit'']), ResourceExecutor_init 5)"
  by (simp add: ResourceExecutor_submit_def count_call_def rebinds_def arity_error_def
      ResourceExecutor_init_def)

text \<open>
  C7. \<^verbatim>\<open>shutdown\<close> of the single-resource executor calls \<^verbatim>\<open>self.__exit__()\<close> with no
  argument. Whatever the resource and the flag \<^verbatim>\<open>wait\<close>, the call raises \<^verbatim>\<open>TypeError\<close>
  and the executor, its resource included, is left as it was: the resource's own
  \<^verbatim>\<open>__exit__\<close> is not reached. The scoped exit with its three arguments does reach it.
\<close>

theorem ResourceExecutor_shutdown_raises:
  "ResourceExecutor_shutdown P self wait = (Inl (PyExc TypeError [] None, [''__exit__'']), self)
   \<and> ResourceExecutor_shutdown counting_protocol (ResourceExecutor_init (1, 0)) True
       = (Inl (PyExc TypeError [] None, [''__exit__'']), ResourceExecutor_init (1, 0))
   \<and> ResourceExecutor_exit counting_protocol (ResourceExecutor_init (1, 0)) [PyNone, PyNone, PyNone]
       = (Inr PyNone, ResourceExecutor_init (1, 1))"
  by (simp add: ResourceExecutor_shutdown_def ResourceExecutor_exit_def arity_error_def
      counting_protocol_def ResourceExecutor_init_def)

text \<open>
  C5. \<^verbatim>\<open>executor.map(echo, [1, 2, 3])\<close> on the single-resource executor: the tuple
  \<^verbatim>\<open>iterables\<close> has the one member \<^verbatim>\<open>[1, 2, 3]\<close>, so the generator calls the function once,
  on the whole list, and is then exhausted. It does not yield one result per item.
\<close>

theorem ResourceExecutor_map_whole_iterable:
  "ResourceExecutor_map_next
       (ResourceExecutor_map echo [PyList [PyInt 1, PyInt 2, PyInt 3]]) (ResourceExecutor_init (0::nat))
     = (Yield (PyList [PyList [PyInt 1, PyInt 2, PyInt 3]]),
        ResourceExecutor_map echo [], ResourceExecutor_init 0)
   \<and> ResourceExecutor_map_next (ResourceExecutor_map echo []) (ResourceExecutor_init (0::nat))
     = (StopIteration, ResourceExecutor_map echo [], ResourceExecutor_init 0)"
  by (simp add: ResourceExecutor_map_next_def ResourceExecutor_map_def echo_def
      ResourceExecutor_init_def)

section \<open>Properties of the pool\<close>

lemma list_all_update: "list_all P xs \<Longrightarrow> P x \<Longrightarrow> list_all P (xs[i := x])"
  by (induction xs arbitrary: i) (auto split: nat.splits)

lemma queue_ok_D: "queue_ok s \<Longrightarrow> QFuture a \<in> set (work_queue s) \<Longrightarrow> a < length (heap s)"
  by (auto simp: queue_ok_def item_ok_def list_all_iff split: qitem.splits)

lemma Inv_init: "Inv ([], ThreadResourceExecutor_init rs)"
  by (auto simp: Inv_def ThreadResourceExecutor_init_def queue_ok_def held_ok_def pc_ok_def holds_def history_def list_all_iff)

lemma submit_accepted:
  assumes "\<not> rebinds [''self'', ''fn''] kwargs" "\<not> rebinds [''self'', ''task''] kwargs"
  shows "ThreadResourceExecutor_submit fn args kwargs s
     = (Inr (length (heap s)),
        s\<lparr>heap := heap s @ [TaskFuture_init fn args kwargs],
          work_queue := work_queue s @ [QFuture (length (heap s))]\<rparr>)"
  using assms by (simp add: ThreadResourceExecutor_submit_def TaskFuture_new_def)

lemma submit_refused:
  assumes "rebinds [''self'', ''fn''] kwargs \<or> rebinds [''self'', ''task''] kwargs"
  shows "\<exists>e. ThreadResourceExecutor_submit fn args kwargs s = (Inl e, s)"
  using assms by (auto simp: ThreadResourceExecutor_submit_def TaskFuture_new_def)

lemma snd_submit:
  "snd (ThreadResourceExecutor_submit fn args kwargs s) = s
   \<or> snd (ThreadResourceExecutor_submit fn args kwargs s)
       = s\<lparr>heap := heap s @ [TaskFuture_init fn args kwargs],
           work_queue := work_queue s @ [QFuture (length (heap s))]\<rparr>"
  by (simp add: ThreadResourceExecutor_submit_def TaskFuture_new_def)

lemma submit_no_keywords:
  "ThreadResourceExecutor_submit fn args [] s
     = (Inr (length (heap s)),
        s\<lparr>heap := heap s @ [TaskFuture_init fn args []],
          work_queue := work_queue s @ [QFuture (length (heap s))]\<rparr>)"
  by (simp add: submit_accepted rebinds_def)

lemma Inv_enqueue:
  assumes "Inv (tr, s)"
  shows "Inv (tr, s\<lparr>heap := heap s @ [TaskFuture_init fn args kwargs],
           work_queue := work_queue s @ [QFuture (length (heap s))]\<rparr>)"
proof -
  define s' where "s' = s\<lparr>heap := heap s @ [TaskFuture_init fn args kwargs],
           work_queue := work_queue s @ [QFuture (length (heap s))]\<rparr>"
  have s': "heap s' = heap s @ [TaskFuture_init fn args kwargs]"
    "work_queue s' = work_queue s @ [QFuture (length (heap s))]" "workers s' = workers s"
    by (simp_all add: s'_def)
  from assms have q: "queue_ok s" and h: "held_ok s" and d: "distinct (filter is_future (work_queue s))"
    and hq: "\<forall>i a. holds s i a \<longrightarrow> QFuture a \<notin> set (work_queue s)"
    and hh: "\<forall>i j a. holds s i a \<longrightarrow> holds s j a \<longrightarrow> i = j"
    and ph: "\<forall>a < length (heap s). phase_ok tr s a"
    and fr: "\<forall>a \<ge> length (heap s). history a tr = []"
    by (auto simp: Inv_def)
  have fresh_q: "QFuture (length (heap s)) \<notin> set (work_queue s)"
    using queue_ok_D[OF q] by auto
  have fresh_h: "\<not> holds s i (length (heap s))" for i
    using h by (auto simp: holds_def held_ok_def pc_ok_def list_all_length split: pc.splits)
  have holds': "holds s' i a = holds s i a" for i a
    by (simp add: s' holds_def)
  have 1: "queue_ok s'"
    using q by (auto simp: s' queue_ok_def item_ok_def list_all_iff split: qitem.splits)
  have 2: "held_ok s'"
    using h by (auto simp: s' held_ok_def pc_ok_def list_all_iff split: pc.splits)
  have 3: "distinct (filter is_future (work_queue s'))"
    using d fresh_q by (auto simp: s' is_future_def)
  have 4: "\<forall>i a. holds s' i a \<longrightarrow> QFuture a \<notin> set (work_queue s')"
    using hq fresh_h by (auto simp: holds' s')
  have 5: "\<forall>i j a. holds s' i a \<longrightarrow> holds s' j a \<longrightarrow> i = j"
    using hh by (simp add: holds')
  have 6: "phase_ok tr s' a" if "a < length (heap s')" for a
  proof (cases "a < length (heap s)")
    case True
    then have "phase_ok tr s a" using ph by simp
    moreover have "a \<noteq> length (heap s)" using True by simp
    moreover have "pending s' a = pending s a" "filling s' a = filling s a"
      using \<open>a \<noteq> length (heap s)\<close> by (simp_all add: pending_def filling_def s')
    ultimately show ?thesis
      using True by (simp add: phase_ok_def s' nth_append)
  next
    case False
    then have a: "a = length (heap s)" using that by (simp add: s')
    then have "history a tr = []" using fr by simp
    moreover have "pending s' a" "\<not> filling s' a"
      using fresh_h[unfolded holds_def] by (auto simp: pending_def filling_def has_pc_def s' a)
    ultimately show ?thesis
      by (simp add: phase_ok_def s' a unfilled_def TaskFuture_init_def)
  qed
  have 7: "\<forall>a \<ge> length (heap s'). history a tr = []"
    using fr by (simp add: s')
  show ?thesis
    using 1 2 3 4 5 6 7 unfolding Inv_def s'_def[symmetric] by simp
qed

lemma Inv_submit:
  assumes "Inv (tr, s)"
  shows "Inv (tr, snd (ThreadResourceExecutor_submit fn args kwargs s))"
  using snd_submit[of fn args kwargs s] assms Inv_enqueue[OF assms, of fn args kwargs] by auto

lemma snd_submit_all_Cons:
  "snd (submit_all func (x # xs) s) = snd (submit_all func xs (snd (ThreadResourceExecutor_submit func [x] [] s)))"
  by (simp add: submit_no_keywords split: prod.splits sum.splits)

lemma Inv_submit_all:
  "Inv (tr, s) \<Longrightarrow> Inv (tr, snd (submit_all func xs s))"
proof (induction xs arbitrary: s)
  case Nil then show ?case by simp
next
  case (Cons x xs)
  have "Inv (tr, snd (ThreadResourceExecutor_submit func [x] [] s))"
    by (rule Inv_submit[OF Cons.prems])
  from Cons.IH[OF this] show ?case
    by (simp only: snd_submit_all_Cons)
qed

lemma Inv_put_sentinels:
  assumes "Inv (tr, s)"
  shows "Inv (tr, put_sentinels s)"
proof -
  have f: "filter is_future (replicate n QNone) = []" for n
    by (induction n) (simp_all add: is_future_def)
  have h: "holds (put_sentinels s) i a = holds s i a" for i a
    by (simp add: holds_def put_sentinels_def)
  have p: "phase_ok tr (put_sentinels s) a = phase_ok tr s a" for a
    by (auto simp: phase_ok_def pending_def filling_def put_sentinels_def)
  have q: "queue_ok s \<Longrightarrow> queue_ok (put_sentinels s)"
    by (auto simp: put_sentinels_def queue_ok_def item_ok_def list_all_iff)
  have k: "held_ok (put_sentinels s) = held_ok s"
    by (simp add: put_sentinels_def held_ok_def)
  have l: "heap (put_sentinels s) = heap s" "work_queue (put_sentinels s) = work_queue s @ replicate (length (workers s)) QNone"
    by (simp_all add: put_sentinels_def)
  show ?thesis using assms unfolding Inv_def
    by (auto simp: h p f q k l)
qed


lemma step_cases [consumes 1, case_names Stop Get Assert Ret Exc Uncaught Set]:
  assumes "ThreadResourceWorker_run_step i s = Some (ev, s')"
  obtains
    (Stop) rest where "i < length (workers s)" "w_pc (workers s ! i) = Waiting"
      "work_queue s = QNone # rest" "ev = []"
      "s' = s\<lparr>work_queue := rest, workers := (workers s)[i := (workers s ! i)\<lparr>w_pc := Stopped\<rparr>]\<rparr>"
  | (Get) a rest where "i < length (workers s)" "w_pc (workers s ! i) = Waiting"
      "work_queue s = QFuture a # rest" "ev = []"
      "s' = s\<lparr>work_queue := rest, workers := (workers s)[i := (workers s ! i)\<lparr>w_pc := Holding a\<rparr>]\<rparr>"
  | (Assert) v rest where "i < length (workers s)" "w_pc (workers s ! i) = Waiting"
      "work_queue s = QOther v # rest" "ev = []"
      "s' = s\<lparr>work_queue := rest, workers := (workers s)[i := (workers s ! i)\<lparr>w_pc := Crashed AssertionFailed\<rparr>]\<rparr>"
  | (Ret) a v r' where "i < length (workers s)" "w_pc (workers s ! i) = Holding a" "a < length (heap s)"
      "f_task (heap s ! a) (w_resource (workers s ! i)) (f_args (heap s ! a)) (f_kwargs (heap s ! a)) = (Inr v, r')"
      "ev = [Called a (Inr v), WroteResult a v]"
      "s' = s\<lparr>heap := (heap s)[a := (heap s ! a)\<lparr>f_result := v\<rparr>],
               workers := (workers s)[i := \<lparr>w_resource = r', w_pc = Filled a\<rparr>]\<rparr>"
  | (Exc) a e r' where "i < length (workers s)" "w_pc (workers s ! i) = Holding a" "a < length (heap s)"
      "f_task (heap s ! a) (w_resource (workers s ! i)) (f_args (heap s ! a)) (f_kwargs (heap s ! a)) = (Inl e, r')"
      "isinstance_Exception (fst e)"
      "ev = [Called a (Inl e), WroteExcinfo a (sys_exc_info e)]"
      "s' = s\<lparr>heap := (heap s)[a := (heap s ! a)\<lparr>f_excinfo := Some (sys_exc_info e)\<rparr>],
               workers := (workers s)[i := \<lparr>w_resource = r', w_pc = Filled a\<rparr>]\<rparr>"
  | (Uncaught) a e r' where "i < length (workers s)" "w_pc (workers s ! i) = Holding a" "a < length (heap s)"
      "f_task (heap s ! a) (w_resource (workers s ! i)) (f_args (heap s ! a)) (f_kwargs (heap s ! a)) = (Inl e, r')"
      "\<not> isinstance_Exception (fst e)"
      "ev = [Called a (Inl e)]"
      "s' = s\<lparr>workers := (workers s)[i := \<lparr>w_resource = r', w_pc = Crashed (Uncaught e)\<rparr>]\<rparr>"
  | (Set) a where "i < length (workers s)" "w_pc (workers s ! i) = Filled a" "a < length (heap s)"
      "ev = [SetFinished a]"
      "s' = s\<lparr>heap := (heap s)[a := (heap s ! a)\<lparr>f_finished := True\<rparr>],
               workers := (workers s)[i := (workers s ! i)\<lparr>w_pc := Waiting\<rparr>]\<rparr>"
  using assms unfolding ThreadResourceWorker_run_step_def
  by (auto simp: Let_def split: if_splits pc.splits list.splits qitem.splits prod.splits sum.splits)


lemma InvD:
  assumes "Inv (tr, s)"
  shows "queue_ok s" "held_ok s" "distinct (filter is_future (work_queue s))"
    "\<And>i a. holds s i a \<Longrightarrow> QFuture a \<notin> set (work_queue s)"
    "\<And>i j a. holds s i a \<Longrightarrow> holds s j a \<Longrightarrow> i = j"
    "\<And>a. a < length (heap s) \<Longrightarrow> phase_ok tr s a"
    "\<And>a. length (heap s) \<le> a \<Longrightarrow> history a tr = []"
  using assms by (auto simp: Inv_def)

lemma InvI:
  assumes "queue_ok s" "held_ok s" "distinct (filter is_future (work_queue s))"
    "\<And>i a. holds s i a \<Longrightarrow> QFuture a \<notin> set (work_queue s)"
    "\<And>i j a. holds s i a \<Longrightarrow> holds s j a \<Longrightarrow> i = j"
    "\<And>a. a < length (heap s) \<Longrightarrow> phase_ok tr s a"
    "\<And>a. length (heap s) \<le> a \<Longrightarrow> history a tr = []"
  shows "Inv (tr, s)"
  using assms unfolding Inv_def by auto

lemma history_append: "history a (tr @ ev) = history a tr @ history a ev"
  by (simp add: history_def)

lemma has_pc_update: "i < length ws \<Longrightarrow> has_pc (ws[i := w]) p = (w_pc w = p \<or> others ws i p)"
  unfolding has_pc_def others_def
  by (auto simp: nth_list_update)

lemma has_pc_split: "i < length ws \<Longrightarrow> has_pc ws p = (w_pc (ws ! i) = p \<or> others ws i p)"
  unfolding has_pc_def others_def by auto

lemma others_holds:
  assumes "\<And>i j a. holds s i a \<Longrightarrow> holds s j a \<Longrightarrow> i = j" "holds s i a"
  shows "\<not> others (workers s) i (Holding a)" "\<not> others (workers s) i (Filled a)"
  using assms unfolding others_def holds_def by blast+

lemma holds_has_pc:
  "(\<exists>i. holds s i a) = (has_pc (workers s) (Holding a) \<or> has_pc (workers s) (Filled a))"
  unfolding holds_def has_pc_def by auto

lemma Inv_step_Stop:
  assumes I: "Inv (tr, s)" and i: "i < length (workers s)" and pc: "w_pc (workers s ! i) = Waiting"
    and q: "work_queue s = QNone # rest"
    and s': "s' = s\<lparr>work_queue := rest, workers := (workers s)[i := (workers s ! i)\<lparr>w_pc := Stopped\<rparr>]\<rparr>"
  shows "Inv (tr, s')"
proof (rule InvI)
  note D = InvD[OF I]
  show "queue_ok s'" using D(1) by (simp add: queue_ok_def s' q)
  show "held_ok s'" using D(2) by (simp add: held_ok_def s' list_all_update pc_ok_def)
  show "distinct (filter is_future (work_queue s'))" using D(3) by (simp add: s' q is_future_def)
  have h: "holds s' j a \<Longrightarrow> holds s j a" for j a
    using i by (auto simp: holds_def s' nth_list_update split: if_splits)
  show "QFuture a \<notin> set (work_queue s')" if "holds s' j a" for j a
    using D(4)[OF h[OF that]] by (simp add: s' q)
  show "j = k" if "holds s' j a" "holds s' k a" for j k a
    using D(5)[OF h[OF that(1)] h[OF that(2)]] .
  have p: "pending s' a = pending s a" "filling s' a = filling s a" for a
    using pc i by (simp_all add: pending_def filling_def s' q has_pc_update has_pc_split[of i "workers s"])
  show "phase_ok tr s' a" if "a < length (heap s')" for a
    using D(6)[of a] that by (simp add: phase_ok_def p) (simp add: s')
  show "history a tr = []" if "length (heap s') \<le> a" for a
    using D(7)[of a] that by (simp add: s')
qed


lemma Inv_step_Get:
  assumes I: "Inv (tr, s)" and i: "i < length (workers s)" and pc: "w_pc (workers s ! i) = Waiting"
    and q: "work_queue s = QFuture b # rest"
    and s': "s' = s\<lparr>work_queue := rest, workers := (workers s)[i := (workers s ! i)\<lparr>w_pc := Holding b\<rparr>]\<rparr>"
  shows "Inv (tr, s')"
proof (rule InvI)
  note D = InvD[OF I]
  have b: "b < length (heap s)" using D(1) by (simp add: queue_ok_def q item_ok_def)
  have nb: "QFuture b \<notin> set rest" using D(3) by (auto simp: q is_future_def)
  show "queue_ok s'" using D(1) by (simp add: queue_ok_def s' q)
  show "held_ok s'" using D(2) b by (simp add: held_ok_def s' list_all_update pc_ok_def)
  show "distinct (filter is_future (work_queue s'))" using D(3) by (simp add: s' q is_future_def)
  have h: "holds s' j a \<Longrightarrow> (j = i \<and> a = b) \<or> (j \<noteq> i \<and> holds s j a)" for j a
    using i pc by (auto simp: holds_def s' nth_list_update split: if_splits)
  show "QFuture a \<notin> set (work_queue s')" if "holds s' j a" for j a
    using h[OF that] D(4)[of j a] nb by (auto simp: s' q)
  show "j = k" if "holds s' j a" "holds s' k a" for j k a
    using h[OF that(1)] h[OF that(2)] D(5)[of j a k] D(4)[of j b] D(4)[of k b] by (auto simp: q)
  have p: "pending s' a = pending s a" "filling s' a = filling s a" for a
    using pc i nb by (auto simp add: pending_def filling_def s' q has_pc_update has_pc_split[of i "workers s"])
  show "phase_ok tr s' a" if "a < length (heap s')" for a
    using D(6)[of a] that by (simp add: phase_ok_def p) (simp add: s')
  show "history a tr = []" if "length (heap s') \<le> a" for a
    using D(7)[of a] that by (simp add: s')
qed

lemma Inv_step_Ret:
  assumes I: "Inv (tr, s)" and i: "i < length (workers s)" and pc: "w_pc (workers s ! i) = Holding b"
    and b: "b < length (heap s)"
    and ev: "ev = [Called b (Inr v), WroteResult b v]"
    and s': "s' = s\<lparr>heap := (heap s)[b := (heap s ! b)\<lparr>f_result := v\<rparr>],
               workers := (workers s)[i := \<lparr>w_resource = r', w_pc = Filled b\<rparr>]\<rparr>"
  shows "Inv (tr @ ev, s')"
proof (rule InvI)
  note D = InvD[OF I]
  have hb: "holds s i b" using i pc by (simp add: holds_def)
  note o = others_holds[OF D(5) hb]
  have nq: "QFuture b \<notin> set (work_queue s)" using D(4)[OF hb] .
  show "queue_ok s'" using D(1) by (simp add: queue_ok_def s')
  show "held_ok s'" using D(2) b by (simp add: held_ok_def s' list_all_update pc_ok_def)
  show "distinct (filter is_future (work_queue s'))" using D(3) by (simp add: s')
  have h: "holds s' j a \<Longrightarrow> holds s j a" for j a
    using i pc by (auto simp: holds_def s' nth_list_update split: if_splits)
  show "QFuture a \<notin> set (work_queue s')" if "holds s' j a" for j a
    using D(4)[OF h[OF that]] by (simp add: s')
  show "j = k" if "holds s' j a" "holds s' k a" for j k a
    using D(5)[OF h[OF that(1)] h[OF that(2)]] .
  show "phase_ok (tr @ ev) s' a" if "a < length (heap s')" for a
  proof (cases "a = b")
    case True
    have "pending s b" using pc i by (auto simp: pending_def has_pc_def)
    then have "history b tr = []" "unfilled (heap s ! b)"
      using D(6)[OF b] by (simp_all add: phase_ok_def)
    moreover have "\<not> pending s' b" "filling s' b"
      using i o nq by (simp_all add: pending_def filling_def s' has_pc_update)
    ultimately show ?thesis
      using b by (simp add: True phase_ok_def history_append)
        (simp add: s' ev history_def written_def unfilled_def)
  next
    case False
    have p: "pending s' a = pending s a" "filling s' a = filling s a"
      using pc i False by (auto simp add: pending_def filling_def s' has_pc_update has_pc_split[of i "workers s"])
    have "history a (tr @ ev) = history a tr" "heap s' ! a = heap s ! a"
      using False by (simp_all add: history_def ev s')
    then show ?thesis
      using D(6)[of a] that by (simp add: phase_ok_def p) (simp add: s')
  qed
  show "history a (tr @ ev) = []" if "length (heap s') \<le> a" for a
    using D(7)[of a] that b by (simp add: s' history_append) (simp add: history_def ev)
qed

lemma Inv_step_Exc:
  assumes I: "Inv (tr, s)" and i: "i < length (workers s)" and pc: "w_pc (workers s ! i) = Holding b"
    and b: "b < length (heap s)" and e: "isinstance_Exception (fst e)"
    and ev: "ev = [Called b (Inl e), WroteExcinfo b (sys_exc_info e)]"
    and s': "s' = s\<lparr>heap := (heap s)[b := (heap s ! b)\<lparr>f_excinfo := Some (sys_exc_info e)\<rparr>],
               workers := (workers s)[i := \<lparr>w_resource = r', w_pc = Filled b\<rparr>]\<rparr>"
  shows "Inv (tr @ ev, s')"
proof (rule InvI)
  note D = InvD[OF I]
  have hb: "holds s i b" using i pc by (simp add: holds_def)
  note o = others_holds[OF D(5) hb]
  have nq: "QFuture b \<notin> set (work_queue s)" using D(4)[OF hb] .
  show "queue_ok s'" using D(1) by (simp add: queue_ok_def s')
  show "held_ok s'" using D(2) b by (simp add: held_ok_def s' list_all_update pc_ok_def)
  show "distinct (filter is_future (work_queue s'))" using D(3) by (simp add: s')
  have h: "holds s' j a \<Longrightarrow> holds s j a" for j a
    using i pc by (auto simp: holds_def s' nth_list_update split: if_splits)
  show "QFuture a \<notin> set (work_queue s')" if "holds s' j a" for j a
    using D(4)[OF h[OF that]] by (simp add: s')
  show "j = k" if "holds s' j a" "holds s' k a" for j k a
    using D(5)[OF h[OF that(1)] h[OF that(2)]] .
  show "phase_ok (tr @ ev) s' a" if "a < length (heap s')" for a
  proof (cases "a = b")
    case True
    have "pending s b" using pc i by (auto simp: pending_def has_pc_def)
    then have "history b tr = []" "unfilled (heap s ! b)"
      using D(6)[OF b] by (simp_all add: phase_ok_def)
    moreover have "\<not> pending s' b" "filling s' b"
      using i o nq by (simp_all add: pending_def filling_def s' has_pc_update)
    ultimately show ?thesis
      using b e by (cases e) (auto simp add: True phase_ok_def history_append s' ev history_def written_def unfilled_def)
  next
    case False
    have p: "pending s' a = pending s a" "filling s' a = filling s a"
      using pc i False by (auto simp add: pending_def filling_def s' has_pc_update has_pc_split[of i "workers s"])
    have "history a (tr @ ev) = history a tr" "heap s' ! a = heap s ! a"
      using False by (simp_all add: history_def ev s')
    then show ?thesis
      using D(6)[of a] that by (simp add: phase_ok_def p) (simp add: s')
  qed
  show "history a (tr @ ev) = []" if "length (heap s') \<le> a" for a
    using D(7)[of a] that b by (simp add: s' history_append) (simp add: history_def ev)
qed

lemma Inv_step_Uncaught:
  assumes I: "Inv (tr, s)" and i: "i < length (workers s)" and pc: "w_pc (workers s ! i) = Holding b"
    and b: "b < length (heap s)" and e: "\<not> isinstance_Exception (fst e)"
    and ev: "ev = [Called b (Inl e)]"
    and s': "s' = s\<lparr>workers := (workers s)[i := \<lparr>w_resource = r', w_pc = Crashed (Uncaught e)\<rparr>]\<rparr>"
  shows "Inv (tr @ ev, s')"
proof (rule InvI)
  note D = InvD[OF I]
  have hb: "holds s i b" using i pc by (simp add: holds_def)
  note o = others_holds[OF D(5) hb]
  have nq: "QFuture b \<notin> set (work_queue s)" using D(4)[OF hb] .
  show "queue_ok s'" using D(1) by (simp add: queue_ok_def s')
  show "held_ok s'" using D(2) b by (simp add: held_ok_def s' list_all_update pc_ok_def)
  show "distinct (filter is_future (work_queue s'))" using D(3) by (simp add: s')
  have h: "holds s' j a \<Longrightarrow> holds s j a" for j a
    using i pc by (auto simp: holds_def s' nth_list_update split: if_splits)
  show "QFuture a \<notin> set (work_queue s')" if "holds s' j a" for j a
    using D(4)[OF h[OF that]] by (simp add: s')
  show "j = k" if "holds s' j a" "holds s' k a" for j k a
    using D(5)[OF h[OF that(1)] h[OF that(2)]] .
  show "phase_ok (tr @ ev) s' a" if "a < length (heap s')" for a
  proof (cases "a = b")
    case True
    have "pending s b" using pc i by (auto simp: pending_def has_pc_def)
    then have "history b tr = []" "unfilled (heap s ! b)"
      using D(6)[OF b] by (simp_all add: phase_ok_def)
    moreover have "\<not> pending s' b" "\<not> filling s' b"
      using i o nq by (simp_all add: pending_def filling_def s' has_pc_update)
    ultimately show ?thesis
      using b e by (cases e) (auto simp add: True phase_ok_def history_append s' ev history_def)
  next
    case False
    have p: "pending s' a = pending s a" "filling s' a = filling s a"
      using pc i False by (auto simp add: pending_def filling_def s' has_pc_update has_pc_split[of i "workers s"])
    have "history a (tr @ ev) = history a tr" "heap s' ! a = heap s ! a"
      using False by (simp_all add: history_def ev s')
    then show ?thesis
      using D(6)[of a] that by (simp add: phase_ok_def p) (simp add: s')
  qed
  show "history a (tr @ ev) = []" if "length (heap s') \<le> a" for a
    using D(7)[of a] that b by (simp add: s' history_append) (simp add: history_def ev)
qed

lemma Inv_step_Set:
  assumes I: "Inv (tr, s)" and i: "i < length (workers s)" and pc: "w_pc (workers s ! i) = Filled b"
    and b: "b < length (heap s)"
    and ev: "ev = [SetFinished b]"
    and s': "s' = s\<lparr>heap := (heap s)[b := (heap s ! b)\<lparr>f_finished := True\<rparr>],
               workers := (workers s)[i := (workers s ! i)\<lparr>w_pc := Waiting\<rparr>]\<rparr>"
  shows "Inv (tr @ ev, s')"
proof (rule InvI)
  note D = InvD[OF I]
  have hb: "holds s i b" using i pc by (simp add: holds_def)
  note o = others_holds[OF D(5) hb]
  have nq: "QFuture b \<notin> set (work_queue s)" using D(4)[OF hb] .
  show "queue_ok s'" using D(1) by (simp add: queue_ok_def s')
  show "held_ok s'" using D(2) b by (simp add: held_ok_def s' list_all_update pc_ok_def)
  show "distinct (filter is_future (work_queue s'))" using D(3) by (simp add: s')
  have h: "holds s' j a \<Longrightarrow> holds s j a" for j a
    using i pc by (auto simp: holds_def s' nth_list_update split: if_splits)
  show "QFuture a \<notin> set (work_queue s')" if "holds s' j a" for j a
    using D(4)[OF h[OF that]] by (simp add: s')
  show "j = k" if "holds s' j a" "holds s' k a" for j k a
    using D(5)[OF h[OF that(1)] h[OF that(2)]] .
  show "phase_ok (tr @ ev) s' a" if "a < length (heap s')" for a
  proof (cases "a = b")
    case True
    have "filling s b" using pc i by (auto simp: filling_def has_pc_def)
    then have "written b (heap s ! b) (history b tr)"
      using D(6)[OF b] by (simp_all add: phase_ok_def)
    moreover have "\<not> pending s' b" "\<not> filling s' b"
      using i o nq by (simp_all add: pending_def filling_def s' has_pc_update)
    ultimately show ?thesis
      using b by (simp add: True phase_ok_def history_append)
        (auto simp add: s' ev history_def written_def)
  next
    case False
    have p: "pending s' a = pending s a" "filling s' a = filling s a"
      using pc i False by (auto simp add: pending_def filling_def s' has_pc_update has_pc_split[of i "workers s"])
    have "history a (tr @ ev) = history a tr" "heap s' ! a = heap s ! a"
      using False by (simp_all add: history_def ev s')
    then show ?thesis
      using D(6)[of a] that by (simp add: phase_ok_def p) (simp add: s')
  qed
  show "history a (tr @ ev) = []" if "length (heap s') \<le> a" for a
    using D(7)[of a] that b by (simp add: s' history_append) (simp add: history_def ev)
qed
lemma Inv_work:
  assumes "Inv (tr, s)"
  shows "Inv (tr @ fst (work i s), snd (work i s))"
proof (cases "ThreadResourceWorker_run_step i s")
  case None
  then show ?thesis using assms by (simp add: work_def)
next
  case (Some r)
  obtain ev s' where r: "r = (ev, s')" by (cases r)
  have w: "work i s = (ev, s')" using Some r by (simp add: work_def)
  from Some[unfolded r] have "Inv (tr @ ev, s')"
  proof (cases rule: step_cases)
    case (Stop rest)
    then show ?thesis using Inv_step_Stop[OF assms] by simp
  next
    case (Get a rest)
    then show ?thesis using Inv_step_Get[OF assms] by simp
  next
    case (Assert v rest)
    then have False using InvD(1)[OF assms] by (simp add: queue_ok_def item_ok_def)
    then show ?thesis ..
  next
    case (Ret a v r')
    then show ?thesis using Inv_step_Ret[OF assms] by simp
  next
    case (Exc a e r')
    then show ?thesis using Inv_step_Exc[OF assms] by simp
  next
    case (Uncaught a e r')
    then show ?thesis using Inv_step_Uncaught[OF assms] by simp
  next
    case (Set a)
    then show ?thesis using Inv_step_Set[OF assms] by simp
  qed
  then show ?thesis by (simp add: w)
qed

lemma Inv_perform:
  assumes "Inv (tr, s)"
  shows "Inv (tr @ fst (perform act s), snd (perform act s))"
proof (cases act)
  case (Submit fn args kwargs)
  then show ?thesis using Inv_submit[OF assms] by simp
next
  case (MapSubmit func iterables)
  then show ?thesis using Inv_submit_all[OF assms] by simp
next
  case ShutdownRound
  then show ?thesis using Inv_put_sentinels[OF assms] assms by simp
next
  case (Work i)
  then show ?thesis using Inv_work[OF assms] by simp
qed

lemma Inv_exec: "Inv c \<Longrightarrow> Inv (exec acts c)"
proof (induction acts arbitrary: c)
  case Nil then show ?case by simp
next
  case (Cons act acts)
  obtain tr s where c: "c = (tr, s)" by (cases c)
  have "Inv (tr @ fst (perform act s), snd (perform act s))"
    using Inv_perform Cons.prems c by blast
  from Cons.IH[OF this] show ?case by (simp add: c)
qed

lemma Inv_pool_run: "Inv (pool_run resources acts)"
  unfolding pool_run_def by (rule Inv_exec[OF Inv_init])

lemma exec_append: "exec (acts @ later) c = exec later (exec acts c)"
  by (induction acts arbitrary: c) simp_all

lemma pool_run_append: "pool_run rs (acts @ later) = exec later (pool_run rs acts)"
  by (simp add: pool_run_def exec_append)

lemma phase_shapes:
  assumes "phase_ok tr s a"
  shows "(history a tr = [] \<and> unfilled (heap s ! a))
       \<or> (\<not> f_finished (heap s ! a) \<and> written a (heap s ! a) (history a tr))
       \<or> (f_finished (heap s ! a) \<and> (\<exists>h. history a tr = h @ [SetFinished a] \<and> written a (heap s ! a) h))
       \<or> (unfilled (heap s ! a) \<and> (\<exists>e. \<not> isinstance_Exception (fst e) \<and> history a tr = [Called a (Inl e)]))"
  using assms unfolding phase_ok_def by blast

lemma written_slots: "written a f h \<Longrightarrow> f_result f = PyNone \<or> f_excinfo f = None"
  by (auto simp: written_def)

lemma written_lifecycle:
  assumes "written a f h"
  shows "\<exists>out. h @ [SetFinished a] = lifecycle a out \<and> Called a out \<in> set h
     \<and> (case f_excinfo f of None \<Rightarrow> out = Inr (f_result f) | Some x \<Rightarrow> (\<exists>e. out = Inl e \<and> x = sys_exc_info e \<and> isinstance_Exception (fst e)))"
  using assms unfolding written_def
proof (elim disjE conjE exE)
  assume "f_excinfo f = None" "h = [Called a (Inr (f_result f)), WroteResult a (f_result f)]"
  then show ?thesis by (intro exI[of _ "Inr (f_result f)"]) simp
next
  fix e assume "isinstance_Exception (fst e)" "f_result f = PyNone" "f_excinfo f = Some (sys_exc_info e)"
    "h = [Called a (Inl e), WroteExcinfo a (sys_exc_info e)]"
  then show ?thesis by (intro exI[of _ "Inl e"]) auto
qed

lemma set_history: "x \<in> set (history a tr) \<longleftrightarrow> x \<in> set tr \<and> about a x"
  by (simp add: history_def)

lemma SetFinished_history: "SetFinished a \<in> set tr \<longleftrightarrow> SetFinished a \<in> set (history a tr)"
  by (simp add: set_history)

lemma Called_history: "Called a out \<in> set tr \<longleftrightarrow> Called a out \<in> set (history a tr)"
  by (simp add: set_history)

lemma heap_submit_all: "\<exists>ys. heap (snd (submit_all func xs s)) = heap s @ ys"
proof (induction xs arbitrary: s)
  case Nil then show ?case by simp
next
  case (Cons x xs)
  obtain ys where "heap (snd (submit_all func xs (snd (ThreadResourceExecutor_submit func [x] [] s))))
     = heap (snd (ThreadResourceExecutor_submit func [x] [] s)) @ ys"
    using Cons.IH by blast
  then show ?case
    by (simp only: snd_submit_all_Cons) (simp add: submit_no_keywords)
qed

lemma held_unfinished:
  assumes I: "Inv (tr, s)" and i: "i < length (workers s)"
    and pc: "w_pc (workers s ! i) = Holding b \<or> w_pc (workers s ! i) = Filled b" and b: "b < length (heap s)"
  shows "\<not> f_finished (heap s ! b)"
proof -
  have "pending s b \<or> filling s b"
    using i pc by (auto simp: pending_def filling_def has_pc_def)
  then show ?thesis
    using InvD(6)[OF I b] by (auto simp: phase_ok_def unfilled_def)
qed

lemma work_stable:
  assumes I: "Inv (tr, s)" and a: "a < length (heap s)" and f: "f_finished (heap s ! a)"
  shows "heap (snd (work i s)) ! a = heap s ! a"
proof (cases "ThreadResourceWorker_run_step i s")
  case None
  then show ?thesis by (simp add: work_def)
next
  case (Some r)
  obtain ev s' where r: "r = (ev, s')" by (cases r)
  have w: "work i s = (ev, s')" using Some r by (simp add: work_def)
  from Some[unfolded r] have "heap s' ! a = heap s ! a"
  proof (cases rule: step_cases)
    case (Ret b v r')
    then have "b \<noteq> a" using held_unfinished[OF I, of i b] f by auto
    then show ?thesis using Ret by simp
  next
    case (Exc b e r')
    then have "b \<noteq> a" using held_unfinished[OF I, of i b] f by auto
    then show ?thesis using Exc by simp
  next
    case (Set b)
    then have "b \<noteq> a" using held_unfinished[OF I, of i b] f by auto
    then show ?thesis using Set by simp
  qed simp_all
  then show ?thesis by (simp add: w)
qed

lemma perform_stable:
  assumes I: "Inv (tr, s)" and a: "a < length (heap s)" and f: "f_finished (heap s ! a)"
  shows "heap (snd (perform act s)) ! a = heap s ! a"
proof (cases act)
  case (Submit fn args kwargs)
  then show ?thesis using a snd_submit[of fn args kwargs s] by (auto simp: nth_append)
next
  case (MapSubmit func iterables)
  obtain ys where "heap (snd (submit_all func iterables s)) = heap s @ ys"
    using heap_submit_all by blast
  then show ?thesis using a MapSubmit by (simp add: nth_append)
next
  case ShutdownRound
  then show ?thesis by (simp add: put_sentinels_def)
next
  case (Work i)
  then show ?thesis using work_stable[OF I a f] by simp
qed

lemma perform_heap_length: "length (heap s) \<le> length (heap (snd (perform act s)))"
proof (cases act)
  case (Submit fn args kwargs)
  then show ?thesis using snd_submit[of fn args kwargs s] by auto
next
  case (MapSubmit func iterables)
  obtain ys where "heap (snd (submit_all func iterables s)) = heap s @ ys"
    using heap_submit_all by blast
  then show ?thesis using MapSubmit by simp
next
  case ShutdownRound
  then show ?thesis by (simp add: put_sentinels_def)
next
  case (Work i)
  show ?thesis
  proof (cases "ThreadResourceWorker_run_step i s")
    case None
    then show ?thesis using Work by (simp add: work_def)
  next
    case (Some r)
    obtain ev s' where r: "r = (ev, s')" by (cases r)
    from Some[unfolded r] have "length (heap s') = length (heap s)"
      by (cases rule: step_cases) simp_all
    then show ?thesis using Work Some r by (simp add: work_def)
  qed
qed

lemma exec_stable:
  assumes "Inv c" "a < length (heap (snd c))" "f_finished (heap (snd c) ! a)"
  shows "heap (snd (exec acts c)) ! a = heap (snd c) ! a"
  using assms
proof (induction acts arbitrary: c)
  case Nil then show ?case by simp
next
  case (Cons act acts)
  obtain tr s where c: "c = (tr, s)" by (cases c)
  let ?c' = "(tr @ fst (perform act s), snd (perform act s))"
  have I': "Inv ?c'" using Inv_perform Cons.prems(1) c by blast
  have st: "heap (snd ?c') ! a = heap s ! a"
    using perform_stable[of tr s a act] Cons.prems c by simp
  have len: "a < length (heap (snd ?c'))"
    using perform_heap_length[of s act] Cons.prems(2) c by simp
  have "heap (snd (exec acts ?c')) ! a = heap (snd ?c') ! a"
    using Cons.IH[OF I' len] st Cons.prems(3) c by simp
  then show ?case using st by (simp add: c)
qed

lemma exec_trace_mono: "set (fst c) \<subseteq> set (fst (exec acts c))"
proof (induction acts arbitrary: c)
  case Nil then show ?case by simp
next
  case (Cons act acts)
  have "set (fst c) \<subseteq> set (fst c @ fst (perform act (snd c)))" by auto
  also have "\<dots> \<subseteq> set (fst (exec (act # acts) c))"
    using Cons.IH[of "(fst c @ fst (perform act (snd c)), snd (perform act (snd c)))"] by simp
  finally show ?case .
qed

lemma exec_heap_length: "length (heap (snd c)) \<le> length (heap (snd (exec acts c)))"
proof (induction acts arbitrary: c)
  case Nil then show ?case by simp
next
  case (Cons act acts)
  have "length (heap (snd c)) \<le> length (heap (snd (perform act (snd c))))"
    by (rule perform_heap_length)
  also have "\<dots> \<le> length (heap (snd (exec (act # acts) c)))"
    using Cons.IH[of "(fst c @ fst (perform act (snd c)), snd (perform act (snd c)))"] by simp
  finally show ?case .
qed

lemma run_workers_append: "run_workers (xs @ ys) s = run_workers ys (run_workers xs s)"
  by (induction xs arbitrary: s) simp_all

lemma alive_can_step:
  assumes "held_ok s" "i < length (workers s)" "is_alive (workers s ! i)" "work_queue s \<noteq> []"
  shows "\<exists>r. ThreadResourceWorker_run_step i s = Some r"
proof -
  have "pc_ok (length (heap s)) (w_pc (workers s ! i))"
    using assms(1,2) by (simp add: held_ok_def list_all_length)
  then show ?thesis
    using assms(2,3,4) unfolding ThreadResourceWorker_run_step_def
    by (auto simp: Let_def is_alive_def pc_ok_def split: pc.splits list.splits qitem.splits prod.splits sum.splits)
qed

lemma step_progress:
  assumes st: "ThreadResourceWorker_run_step i s = Some (ev, s1)" and q: "queue_ok s" and h: "held_ok s"
  shows "queue_ok s1" "held_ok s1" "length (workers s1) = length (workers s)"
    "\<And>j. j \<noteq> i \<Longrightarrow> workers s1 ! j = workers s ! j"
    "todo s1 i < todo s i"
    "is_alive (workers s1 ! i) \<Longrightarrow> sentinels s1 = sentinels s"
    "sentinels s \<le> Suc (sentinels s1)"
proof -
  have "queue_ok s1 \<and> held_ok s1 \<and> length (workers s1) = length (workers s)
    \<and> (\<forall>j. j \<noteq> i \<longrightarrow> workers s1 ! j = workers s ! j) \<and> todo s1 i < todo s i
    \<and> (is_alive (workers s1 ! i) \<longrightarrow> sentinels s1 = sentinels s) \<and> sentinels s \<le> Suc (sentinels s1)"
    using st
  proof (cases rule: step_cases)
    case (Stop rest)
    then show ?thesis using q h
      by (simp add: queue_ok_def held_ok_def list_all_update pc_ok_def todo_def sentinels_def is_alive_def)
  next
    case (Get a rest)
    then show ?thesis using q h
      by (simp add: queue_ok_def held_ok_def list_all_update pc_ok_def item_ok_def todo_def sentinels_def is_alive_def)
  next
    case (Assert v rest)
    then show ?thesis using q h
      by (simp add: queue_ok_def item_ok_def)
  next
    case (Ret a v r')
    then show ?thesis using q h
      by (simp add: queue_ok_def held_ok_def list_all_update pc_ok_def todo_def sentinels_def is_alive_def)
  next
    case (Exc a e r')
    then show ?thesis using q h
      by (simp add: queue_ok_def held_ok_def list_all_update pc_ok_def todo_def sentinels_def is_alive_def)
  next
    case (Uncaught a e r')
    then show ?thesis using q h
      by (simp add: queue_ok_def held_ok_def list_all_update pc_ok_def todo_def sentinels_def is_alive_def)
  next
    case (Set a)
    then show ?thesis using q h
      by (simp add: queue_ok_def held_ok_def list_all_update pc_ok_def todo_def sentinels_def is_alive_def)
  qed
  then show "queue_ok s1" "held_ok s1" "length (workers s1) = length (workers s)"
    "\<And>j. j \<noteq> i \<Longrightarrow> workers s1 ! j = workers s ! j"
    "todo s1 i < todo s i"
    "is_alive (workers s1 ! i) \<Longrightarrow> sentinels s1 = sentinels s"
    "sentinels s \<le> Suc (sentinels s1)"
    by simp_all
qed

lemma drain_one:
  assumes "queue_ok s" "held_ok s" "i < length (workers s)" "0 < sentinels s"
  shows "\<exists>k. \<not> is_alive (workers (run_workers (replicate k i) s) ! i)
     \<and> queue_ok (run_workers (replicate k i) s) \<and> held_ok (run_workers (replicate k i) s)
     \<and> length (workers (run_workers (replicate k i) s)) = length (workers s)
     \<and> (\<forall>j. j \<noteq> i \<longrightarrow> workers (run_workers (replicate k i) s) ! j = workers s ! j)
     \<and> sentinels s \<le> Suc (sentinels (run_workers (replicate k i) s))"
  using assms
proof (induction "todo s i" arbitrary: s rule: less_induct)
  case less
  show ?case
  proof (cases "is_alive (workers s ! i)")
    case False
    then show ?thesis using less.prems by (intro exI[of _ 0]) simp
  next
    case True
    have "work_queue s \<noteq> []" using less.prems(4) by (auto simp: sentinels_def)
    from alive_can_step[OF less.prems(2,3) True this]
    obtain ev s1 where st: "ThreadResourceWorker_run_step i s = Some (ev, s1)" by auto
    note P = step_progress[OF st less.prems(1,2)]
    have w: "snd (work i s) = s1" using st by (simp add: work_def)
    show ?thesis
    proof (cases "is_alive (workers s1 ! i)")
      case False
      then show ?thesis using P w by (intro exI[of _ 1]) simp
    next
      case alive: True
      have "0 < sentinels s1" using P(6)[OF alive] less.prems(4) by simp
      from less.hyps[OF P(5) P(1) P(2) _ this] less.prems(3) P(3)
      obtain k where k: "\<not> is_alive (workers (run_workers (replicate k i) s1) ! i)"
        "queue_ok (run_workers (replicate k i) s1)" "held_ok (run_workers (replicate k i) s1)"
        "length (workers (run_workers (replicate k i) s1)) = length (workers s1)"
        "\<forall>j. j \<noteq> i \<longrightarrow> workers (run_workers (replicate k i) s1) ! j = workers s1 ! j"
        "sentinels s1 \<le> Suc (sentinels (run_workers (replicate k i) s1))"
        by auto
      show ?thesis
        using k P(3,4) P(6)[OF alive] w by (intro exI[of _ "Suc k"]) simp
    qed
  qed
qed

lemma drain_upto:
  assumes "queue_ok s" "held_ok s" "length (workers s) \<le> sentinels s" "k \<le> length (workers s)"
  shows "\<exists>sched. (\<forall>j < k. \<not> is_alive (workers (run_workers sched s) ! j))
     \<and> queue_ok (run_workers sched s) \<and> held_ok (run_workers sched s)
     \<and> length (workers (run_workers sched s)) = length (workers s)
     \<and> length (workers s) \<le> sentinels (run_workers sched s) + k"
  using assms(4)
proof (induction k)
  case 0
  then show ?case using assms by (intro exI[of _ "[]"]) simp
next
  case (Suc k)
  then obtain sched where s: "\<forall>j < k. \<not> is_alive (workers (run_workers sched s) ! j)"
    "queue_ok (run_workers sched s)" "held_ok (run_workers sched s)"
    "length (workers (run_workers sched s)) = length (workers s)"
    "length (workers s) \<le> sentinels (run_workers sched s) + k"
    by auto
  let ?s = "run_workers sched s"
  have "0 < sentinels ?s" using s(5) Suc.prems by simp
  from drain_one[OF s(2,3) _ this, of k] Suc.prems s(4)
  obtain m where m: "\<not> is_alive (workers (run_workers (replicate m k) ?s) ! k)"
    "queue_ok (run_workers (replicate m k) ?s)" "held_ok (run_workers (replicate m k) ?s)"
    "length (workers (run_workers (replicate m k) ?s)) = length (workers ?s)"
    "\<forall>j. j \<noteq> k \<longrightarrow> workers (run_workers (replicate m k) ?s) ! j = workers ?s ! j"
    "sentinels ?s \<le> Suc (sentinels (run_workers (replicate m k) ?s))"
    by auto
  have "\<forall>j < Suc k. \<not> is_alive (workers (run_workers (replicate m k) ?s) ! j)"
    using m(1,5) s(1) by (auto simp: less_Suc_eq)
  then show ?case
    using m s by (intro exI[of _ "sched @ replicate m k"]) (simp add: run_workers_append)
qed

lemma drain_all:
  assumes "queue_ok s" "held_ok s" "length (workers s) \<le> sentinels s"
  shows "\<exists>sched. \<not> any_alive (run_workers sched s)"
proof -
  from drain_upto[OF assms order_refl]
  obtain sched where "\<forall>j < length (workers s). \<not> is_alive (workers (run_workers sched s) ! j)"
    "length (workers (run_workers sched s)) = length (workers s)"
    by auto
  then have "\<not> any_alive (run_workers sched s)"
    by (auto simp: any_alive_def list_ex_length)
  then show ?thesis ..
qed

lemma put_sentinels_ok:
  assumes "queue_ok s" "held_ok s"
  shows "queue_ok (put_sentinels s)" "held_ok (put_sentinels s)"
    "length (workers (put_sentinels s)) \<le> sentinels (put_sentinels s)"
  using assms
  by (auto simp: put_sentinels_def queue_ok_def held_ok_def item_ok_def sentinels_def list_all_iff)

lemma shutdown_returns_dead:
  "shutdown_loop scheds s = Some s' \<Longrightarrow> \<not> any_alive s'"
  by (induction scheds arbitrary: s) (auto split: if_splits)

lemma shutdown_noop: "\<not> any_alive s \<Longrightarrow> shutdown_loop scheds s = Some s"
  by (cases scheds) simp_all

lemma work_task_fields:
  assumes "a < length (heap s)"
  shows "f_task (heap (snd (work i s)) ! a) = f_task (heap s ! a)
       \<and> f_args (heap (snd (work i s)) ! a) = f_args (heap s ! a)
       \<and> f_kwargs (heap (snd (work i s)) ! a) = f_kwargs (heap s ! a)"
proof (cases "ThreadResourceWorker_run_step i s")
  case None
  then show ?thesis by (simp add: work_def)
next
  case (Some r)
  obtain ev s' where r: "r = (ev, s')" by (cases r)
  from Some[unfolded r] have "f_task (heap s' ! a) = f_task (heap s ! a)
       \<and> f_args (heap s' ! a) = f_args (heap s ! a) \<and> f_kwargs (heap s' ! a) = f_kwargs (heap s ! a)"
    using assms by (cases rule: step_cases) (simp_all add: nth_list_update)
  then show ?thesis using Some r by (simp add: work_def)
qed

lemma perform_task_fields:
  assumes "a < length (heap s)"
  shows "f_task (heap (snd (perform act s)) ! a) = f_task (heap s ! a)
       \<and> f_args (heap (snd (perform act s)) ! a) = f_args (heap s ! a)
       \<and> f_kwargs (heap (snd (perform act s)) ! a) = f_kwargs (heap s ! a)"
proof (cases act)
  case (Submit fn args kwargs)
  then show ?thesis using assms snd_submit[of fn args kwargs s] by (auto simp: nth_append)
next
  case (MapSubmit func iterables)
  obtain ys where "heap (snd (submit_all func iterables s)) = heap s @ ys"
    using heap_submit_all by blast
  then show ?thesis using assms MapSubmit by (simp add: nth_append)
next
  case ShutdownRound
  then show ?thesis by (simp add: put_sentinels_def)
next
  case (Work i)
  then show ?thesis using work_task_fields[OF assms] by simp
qed

lemma perform_calls:
  assumes "Called a out \<in> set (fst (perform act s))"
  shows "a < length (heap s)
     \<and> (\<exists>r. out = fst (f_task (heap s ! a) r (f_args (heap s ! a)) (f_kwargs (heap s ! a))))"
proof (cases act)
  case (Work i)
  show ?thesis
  proof (cases "ThreadResourceWorker_run_step i s")
    case None
    then show ?thesis using assms Work by (simp add: work_def)
  next
    case (Some r)
    obtain ev s' where r: "r = (ev, s')" by (cases r)
    have "Called a out \<in> set ev" using assms Work Some r by (simp add: work_def)
    with Some[unfolded r] show ?thesis
    proof (cases rule: step_cases)
      case (Ret b v r')
      then show ?thesis using \<open>Called a out \<in> set ev\<close>
        by (auto intro!: exI[of _ "w_resource (workers s ! i)"])
    next
      case (Exc b e r')
      then show ?thesis using \<open>Called a out \<in> set ev\<close>
        by (auto intro!: exI[of _ "w_resource (workers s ! i)"])
    next
      case (Uncaught b e r')
      then show ?thesis using \<open>Called a out \<in> set ev\<close>
        by (auto intro!: exI[of _ "w_resource (workers s ! i)"])
    qed simp_all
  qed
qed (use assms in simp_all)

lemma calls_ok_exec: "calls_ok c \<Longrightarrow> calls_ok (exec acts c)"
proof (induction acts arbitrary: c)
  case Nil then show ?case by simp
next
  case (Cons act acts)
  let ?c' = "(fst c @ fst (perform act (snd c)), snd (perform act (snd c)))"
  have "calls_ok ?c'"
    unfolding calls_ok_def
  proof (intro allI impI)
    fix a out assume "Called a out \<in> set (fst ?c')"
    then consider "Called a out \<in> set (fst c)" | "Called a out \<in> set (fst (perform act (snd c)))"
      by auto
    then have a: "a < length (heap (snd c))
       \<and> (\<exists>r. out = fst (f_task (heap (snd c) ! a) r (f_args (heap (snd c) ! a)) (f_kwargs (heap (snd c) ! a))))"
      using Cons.prems perform_calls unfolding calls_ok_def by (cases) blast+
    then have "a < length (heap (snd ?c'))"
      using perform_heap_length[of "snd c" act] by simp
    then show "a < length (heap (snd ?c'))
       \<and> (\<exists>r. out = fst (f_task (heap (snd ?c') ! a) r (f_args (heap (snd ?c') ! a)) (f_kwargs (heap (snd ?c') ! a))))"
      using a perform_task_fields[of a "snd c" act] by simp
  qed
  from Cons.IH[OF this] show ?case by simp
qed

lemma calls_ok_pool_run: "calls_ok (pool_run resources acts)"
  unfolding pool_run_def by (rule calls_ok_exec) (simp add: calls_ok_def)

lemma result_finished:
  "f_finished f \<Longrightarrow> TaskFuture_result py2 f timeout
     = (case f_excinfo f of None \<Rightarrow> Returns (f_result f) | Some (cls, err, trc) \<Rightarrow> Raises (err, trc))"
  by (auto simp: TaskFuture_result_def Event_wait_def split: option.splits)

lemma result_unfinished: "\<not> f_finished f \<Longrightarrow> TaskFuture_result py2 f None = Blocks"
  by (simp add: TaskFuture_result_def Event_wait_def)

lemma future_facts:
  assumes I: "Inv (tr, s)" and a: "a < length (heap s)"
  shows "f_finished (heap s ! a) \<longleftrightarrow> SetFinished a \<in> set tr"
    "Called a out \<in> set tr \<Longrightarrow> Called a out' \<in> set tr \<Longrightarrow> out = out'"
    "f_finished (heap s ! a) \<Longrightarrow> \<exists>out. Called a out \<in> set tr \<and> TaskFuture_result py2 (heap s ! a) timeout = settle out"
    "Called a (Inl e) \<in> set tr \<Longrightarrow> \<not> isinstance_Exception (fst e) \<Longrightarrow> \<not> f_finished (heap s ! a)"
proof -
  note sh = phase_shapes[OF InvD(6)[OF I a]]
  show "f_finished (heap s ! a) \<longleftrightarrow> SetFinished a \<in> set tr"
    unfolding SetFinished_history[of a tr] using sh
    by (auto simp: unfilled_def written_def)
  show "out = out'" if "Called a out \<in> set tr" "Called a out' \<in> set tr"
    using that sh unfolding Called_history[of a _ tr]
    by (auto simp: written_def)
  show "\<exists>out. Called a out \<in> set tr \<and> TaskFuture_result py2 (heap s ! a) timeout = settle out"
    if "f_finished (heap s ! a)"
  proof -
    from sh that obtain h where h: "history a tr = h @ [SetFinished a]" "written a (heap s ! a) h"
      by (auto simp: unfilled_def)
    from written_lifecycle[OF h(2)] obtain out where out: "Called a out \<in> set h"
      "case f_excinfo (heap s ! a) of None \<Rightarrow> out = Inr (f_result (heap s ! a))
        | Some x \<Rightarrow> (\<exists>e. out = Inl e \<and> x = sys_exc_info e \<and> isinstance_Exception (fst e))"
      by blast
    have "Called a out \<in> set tr" using out(1) h(1) Called_history[of a out tr] by simp
    moreover have "TaskFuture_result py2 (heap s ! a) timeout = settle out"
      using out(2) that by (auto simp: result_finished sys_exc_info_def split: option.splits)
    ultimately show ?thesis by blast
  qed
  show "\<not> f_finished (heap s ! a)" if "Called a (Inl e) \<in> set tr" "\<not> isinstance_Exception (fst e)"
    using that sh unfolding Called_history[of a _ tr]
    by (auto simp: written_def unfilled_def)
qed
lemma head_of_queue_trace:
  assumes q: "work_queue s = QFuture a # rest" and i: "i < length (workers s)"
    and pc: "w_pc (workers s ! i) = Waiting" and a: "a < length (heap s)"
  shows "fst (exec [Work i, Work i, Work i] (tr, s))
     = tr @ lifecycle a (fst (f_task (heap s ! a) (w_resource (workers s ! i)) (f_args (heap s ! a)) (f_kwargs (heap s ! a))))"
proof -
  let ?w = "workers s ! i"
  let ?s1 = "s\<lparr>work_queue := rest, workers := (workers s)[i := ?w\<lparr>w_pc := Holding a\<rparr>]\<rparr>"
  have 1: "work i s = ([], ?s1)"
    using q i pc by (simp add: work_def ThreadResourceWorker_run_step_def)
  obtain out r' where t: "f_task (heap s ! a) (w_resource ?w) (f_args (heap s ! a)) (f_kwargs (heap s ! a)) = (out, r')"
    by (cases "f_task (heap s ! a) (w_resource ?w) (f_args (heap s ! a)) (f_kwargs (heap s ! a))")
  show ?thesis
  proof (cases out)
    case (Inr v)
    let ?s2 = "?s1\<lparr>heap := (heap s)[a := (heap s ! a)\<lparr>f_result := v\<rparr>],
               workers := (workers ?s1)[i := \<lparr>w_resource = r', w_pc = Filled a\<rparr>]\<rparr>"
    have 2: "work i ?s1 = ([Called a (Inr v), WroteResult a v], ?s2)"
      using i a t Inr by (simp add: work_def ThreadResourceWorker_run_step_def)
    have 3: "fst (work i ?s2) = [SetFinished a]"
      using i a by (simp add: work_def ThreadResourceWorker_run_step_def)
    show ?thesis using 1 2 3 t Inr by simp
  next
    case (Inl e)
    show ?thesis
    proof (cases "isinstance_Exception (fst e)")
      case True
      let ?s2 = "?s1\<lparr>heap := (heap s)[a := (heap s ! a)\<lparr>f_excinfo := Some (sys_exc_info e)\<rparr>],
               workers := (workers ?s1)[i := \<lparr>w_resource = r', w_pc = Filled a\<rparr>]\<rparr>"
      have 2: "work i ?s1 = ([Called a (Inl e), WroteExcinfo a (sys_exc_info e)], ?s2)"
        using i a t Inl True by (simp add: work_def ThreadResourceWorker_run_step_def)
      have 3: "fst (work i ?s2) = [SetFinished a]"
        using i a by (simp add: work_def ThreadResourceWorker_run_step_def)
      show ?thesis using 1 2 3 t Inl True by simp
    next
      case False
      let ?s2 = "?s1\<lparr>workers := (workers ?s1)[i := \<lparr>w_resource = r', w_pc = Crashed (Uncaught e)\<rparr>]\<rparr>"
      have 2: "work i ?s1 = ([Called a (Inl e)], ?s2)"
        using i a t Inl False by (simp add: work_def ThreadResourceWorker_run_step_def)
      have 3: "fst (work i ?s2) = []"
        using i a by (simp add: work_def ThreadResourceWorker_run_step_def)
      show ?thesis using 1 2 3 t Inl False by simp
    qed
  qed
qed

lemma lifecycle_Called: "Called a out \<in> set (lifecycle a out)"
  by (cases out) auto


lemmas run_defs = pool_run_def ThreadResourceExecutor_init_def ThreadResourceExecutor_submit_def
  TaskFuture_new_def rebinds_def work_def ThreadResourceWorker_run_step_def TaskFuture_init_def isinstance_Exception_def Let_def
  sys_exc_info_def put_sentinels_def any_alive_def is_alive_def

text \<open>
  C10. In every execution of a pool through \<^verbatim>\<open>submit\<close>, \<^verbatim>\<open>map\<close>, \<^verbatim>\<open>shutdown\<close> and
  the steps of its workers, every item of the queue is \<^verbatim>\<open>None\<close> or a TaskFuture, and no
  worker has failed the assertion \<^verbatim>\<open>isinstance(future, TaskFuture)\<close>.
\<close>

theorem pool_queue_items:
  "list_all is_sentinel_or_future (work_queue (snd (pool_run resources acts)))
   \<and> list_all (\<lambda>w. w_pc w \<noteq> Crashed AssertionFailed) (workers (snd (pool_run resources acts)))"
proof -
  obtain tr s where c: "pool_run resources acts = (tr, s)" by (cases "pool_run resources acts")
  have I: "Inv (tr, s)" using Inv_pool_run[of resources acts] c by simp
  have "list_all is_sentinel_or_future (work_queue s)"
    using InvD(1)[OF I]
    by (auto simp: queue_ok_def list_all_iff item_ok_def is_sentinel_or_future_def split: qitem.splits)
  moreover have "list_all (\<lambda>w. w_pc w \<noteq> Crashed AssertionFailed) (workers s)"
    using InvD(2)[OF I]
    by (auto simp: held_ok_def list_all_iff pc_ok_def split: pc.splits)
  ultimately show ?thesis by (simp add: c)
qed

text \<open>An object of another kind on the queue does make the assertion fail.\<close>

lemma foreign_item_fails_assertion:
  "map w_pc (workers (snd (work 0
      \<lparr>work_queue = [QOther (PyInt 1)], workers = [\<lparr>w_resource = (0::nat), w_pc = Waiting\<rparr>], heap = []\<rparr>)))
   = [Crashed AssertionFailed]"
  by (simp add: work_def ThreadResourceWorker_run_step_def)

text \<open>
  What holds for every future of every execution of a pool: the result slot and the
  error slot are never both populated; the events of the future are an initial part of
  one life; once the task has been called, the events are its whole life or its life up
  to the signal, so that a task that returns or raises an instance of \<^verbatim>\<open>Exception\<close> has
  had its one slot written; the task is called at most once; the future is finished
  exactly when the signal has been set; the slot that was written holds what was written
  and the other slot is empty; and a finished future is never changed again, whatever
  happens later.
\<close>

lemma future_lifecycle:
  assumes "a < length (heap (snd (pool_run resources acts)))"
  shows "(f_result (heap (snd (pool_run resources acts)) ! a) = PyNone
            \<or> f_excinfo (heap (snd (pool_run resources acts)) ! a) = None)
     \<and> (\<exists>out n. history a (fst (pool_run resources acts)) = take n (lifecycle a out))
     \<and> (\<forall>out. Called a out \<in> set (fst (pool_run resources acts)) \<longrightarrow>
          history a (fst (pool_run resources acts)) = take 2 (lifecycle a out)
          \<or> history a (fst (pool_run resources acts)) = lifecycle a out)
     \<and> length (filter (\<lambda>ev. \<exists>out. ev = Called a out) (fst (pool_run resources acts))) \<le> 1
     \<and> (f_finished (heap (snd (pool_run resources acts)) ! a)
          \<longleftrightarrow> SetFinished a \<in> set (fst (pool_run resources acts)))
     \<and> (\<forall>v. WroteResult a v \<in> set (fst (pool_run resources acts)) \<longrightarrow>
          f_result (heap (snd (pool_run resources acts)) ! a) = v
          \<and> f_excinfo (heap (snd (pool_run resources acts)) ! a) = None)
     \<and> (\<forall>x. WroteExcinfo a x \<in> set (fst (pool_run resources acts)) \<longrightarrow>
          f_excinfo (heap (snd (pool_run resources acts)) ! a) = Some x
          \<and> f_result (heap (snd (pool_run resources acts)) ! a) = PyNone)
     \<and> (f_finished (heap (snd (pool_run resources acts)) ! a) \<longrightarrow>
          heap (snd (pool_run resources (acts @ later))) ! a = heap (snd (pool_run resources acts)) ! a)"
proof -
  obtain tr s where c: "pool_run resources acts = (tr, s)" by (cases "pool_run resources acts")
  have I: "Inv (tr, s)" using Inv_pool_run[of resources acts] c by simp
  have a: "a < length (heap s)" using assms c by simp
  note sh = phase_shapes[OF InvD(6)[OF I a]]
  have 1: "f_result (heap s ! a) = PyNone \<or> f_excinfo (heap s ! a) = None"
    using sh by (auto simp: unfilled_def dest: written_slots)
  have 2: "\<exists>out n. history a tr = take n (lifecycle a out)"
    using sh
  proof (elim disjE conjE exE)
    assume "history a tr = []"
    then show ?thesis by (intro exI[of _ "Inr PyNone"] exI[of _ 0]) simp
  next
    assume "written a (heap s ! a) (history a tr)"
    from written_lifecycle[OF this] obtain out where "history a tr @ [SetFinished a] = lifecycle a out"
      by blast
    then have "history a tr = take (length (history a tr)) (lifecycle a out)"
      by (metis append_eq_conv_conj)
    then show ?thesis by blast
  next
    fix h assume "history a tr = h @ [SetFinished a]" "written a (heap s ! a) h"
    from written_lifecycle[OF this(2)] this(1) obtain out where "history a tr = lifecycle a out"
      by auto
    then have "history a tr = take (length (lifecycle a out)) (lifecycle a out)" by simp
    then show ?thesis by blast
  next
    fix e assume "\<not> isinstance_Exception (fst e)" "history a tr = [Called a (Inl e)]"
    then have "history a tr = take 1 (lifecycle a (Inl e))" by simp
    then show ?thesis by blast
  qed
  have 3: "f_finished (heap s ! a) \<longleftrightarrow> SetFinished a \<in> set tr"
    unfolding SetFinished_history[of a tr] using sh
    by (auto simp: unfilled_def written_def)
  have 4: "heap (snd (pool_run resources (acts @ later))) ! a = heap s ! a" if "f_finished (heap s ! a)"
    using exec_stable[of "(tr, s)" a later] I a that by (simp add: pool_run_append c)
  have 5: "f_result (heap s ! a) = v \<and> f_excinfo (heap s ! a) = None" if "WroteResult a v \<in> set tr" for v
  proof -
    have "WroteResult a v \<in> set (history a tr)" using that by (simp add: set_history)
    then show ?thesis using sh by (auto simp: written_def)
  qed
  have 6: "f_excinfo (heap s ! a) = Some x \<and> f_result (heap s ! a) = PyNone" if "WroteExcinfo a x \<in> set tr" for x
  proof -
    have "WroteExcinfo a x \<in> set (history a tr)" using that by (simp add: set_history)
    then show ?thesis using sh by (auto simp: written_def)
  qed
  have 7: "history a tr = take 2 (lifecycle a out) \<or> history a tr = lifecycle a out"
    if "Called a out \<in> set tr" for out
  proof -
    have "Called a out \<in> set (history a tr)" using that by (simp add: set_history)
    then show ?thesis using sh by (auto simp: written_def)
  qed
  have "filter (\<lambda>ev. \<exists>out. ev = Called a out) tr
      = filter (\<lambda>ev. \<exists>out. ev = Called a out) (history a tr)"
    unfolding history_def filter_filter by (rule filter_cong) auto
  moreover have "length (filter (\<lambda>ev. \<exists>out. ev = Called a out) (history a tr)) \<le> 1"
    using sh by (auto simp: written_def)
  ultimately have 8: "length (filter (\<lambda>ev. \<exists>out. ev = Called a out) tr) \<le> 1" by simp
  show ?thesis using 1 2 3 4 5 6 7 8 by (simp add: c)
qed

lemma future_lifecycle_example:
  "(0::nat) < length (heap (snd (pool_run [5::nat] [Submit count_call [] [], Work 0, Work 0, Work 0])))
   \<and> f_finished (heap (snd (pool_run [5::nat] [Submit count_call [] [], Work 0, Work 0, Work 0])) ! 0)
   \<and> SetFinished 0 \<in> set (fst (pool_run [5::nat] [Submit count_call [] [], Work 0, Work 0, Work 0]))
   \<and> f_excinfo (heap (snd (pool_run [5::nat] [Submit count_call [] [], Work 0, Work 0, Work 0])) ! 0) = None
   \<and> f_result (heap (snd (pool_run [5::nat] [Submit count_call [] [], Work 0, Work 0, Work 0])) ! 0) = PyInt 5
   \<and> heap (snd (pool_run [5::nat] ([Submit count_call [] [], Work 0, Work 0, Work 0]
          @ [Submit count_call [] [], Work 0, Work 0, Work 0]))) ! 0
      = heap (snd (pool_run [5::nat] [Submit count_call [] [], Work 0, Work 0, Work 0])) ! 0"
  using future_lifecycle[where a = 0 and resources = "[5::nat]"
      and acts = "[Submit count_call [] [], Work 0, Work 0, Work 0]"
      and later = "[Submit count_call [] [], Work 0, Work 0, Work 0]"]
  by (simp add: run_defs count_call_def)

text \<open>A pool none of whose threads is alive does not move, whoever is scheduled.\<close>

lemma dead_worker_cannot_step:
  assumes "\<not> any_alive s"
  shows "work i s = ([], s)"
proof (cases "i < length (workers s)")
  case True
  then have "\<not> is_alive (workers s ! i)"
    using assms by (auto simp: any_alive_def list_ex_iff)
  then show ?thesis
    using True
    by (auto simp: work_def ThreadResourceWorker_run_step_def is_alive_def Let_def split: pc.splits)
next
  case False
  then show ?thesis by (simp add: work_def ThreadResourceWorker_run_step_def)
qed

lemma dead_pool_stays: "\<not> any_alive s \<Longrightarrow> run_workers sched s = s"
  by (induction sched) (simp_all add: dead_worker_cannot_step)

text \<open>
  C3. A task that calls \<^verbatim>\<open>sys.exit()\<close>, submitted to a pool of one worker: the worker
  dequeues the future and calls the task; \<^verbatim>\<open>SystemExit\<close> is not an instance of
  \<^verbatim>\<open>Exception\<close>, so the handler does not run and \<^verbatim>\<open>_finished.set()\<close> is not reached.
  The worker has then processed the future and written neither slot: the future is as
  \<^verbatim>\<open>__init__\<close> left it, not signalled, and the thread has ended, so that no schedule
  changes this. For a task that raises \<^verbatim>\<open>ZeroDivisionError\<close> the same worker writes the
  error slot and then sets the signal.
\<close>

theorem worker_writes_no_slot_on_SystemExit:
  "pool_run [0::nat] [Submit sys_exit [] [], Work 0, Work 0]
     = ([Called 0 (Inl (PyExc SystemExit [] None, [''task'']))],
        \<lparr>work_queue = [],
         workers = [\<lparr>w_resource = 0, w_pc = Crashed (Uncaught (PyExc SystemExit [] None, [''task'']))\<rparr>],
         heap = [TaskFuture_init sys_exit [] []]\<rparr>)
   \<and> f_result (heap (snd (pool_run [0::nat] [Submit sys_exit [] [], Work 0, Work 0])) ! 0) = PyNone
   \<and> f_excinfo (heap (snd (pool_run [0::nat] [Submit sys_exit [] [], Work 0, Work 0])) ! 0) = None
   \<and> \<not> f_finished (heap (snd (pool_run [0::nat] [Submit sys_exit [] [], Work 0, Work 0])) ! 0)
   \<and> run_workers sched (snd (pool_run [0::nat] [Submit sys_exit [] [], Work 0, Work 0]))
     = snd (pool_run [0::nat] [Submit sys_exit [] [], Work 0, Work 0])
   \<and> pool_run [0::nat] [Submit divide_by_zero [] [], Work 0, Work 0, Work 0]
     = ([Called 0 (Inl (PyExc ZeroDivisionError [PyStr ''division by zero''] None, [''task''])),
         WroteExcinfo 0 (ZeroDivisionError,
            PyExc ZeroDivisionError [PyStr ''division by zero''] None, [''task'']),
         SetFinished 0],
        \<lparr>work_queue = [],
         workers = [\<lparr>w_resource = 0, w_pc = Waiting\<rparr>],
         heap = [(TaskFuture_init divide_by_zero [] [])
                  \<lparr>f_finished := True,
                   f_excinfo := Some (ZeroDivisionError,
                      PyExc ZeroDivisionError [PyStr ''division by zero''] None, [''task''])\<rparr>]\<rparr>)"
proof -
  have dead: "\<not> any_alive (snd (pool_run [0::nat] [Submit sys_exit [] [], Work 0, Work 0]))"
    by (simp add: run_defs sys_exit_def SystemExit_def)
  have "run_workers sched (snd (pool_run [0::nat] [Submit sys_exit [] [], Work 0, Work 0]))
     = snd (pool_run [0::nat] [Submit sys_exit [] [], Work 0, Work 0])"
    by (rule dead_pool_stays[OF dead])
  moreover have "pool_run [0::nat] [Submit sys_exit [] [], Work 0, Work 0]
     = ([Called 0 (Inl (PyExc SystemExit [] None, [''task'']))],
        \<lparr>work_queue = [],
         workers = [\<lparr>w_resource = 0, w_pc = Crashed (Uncaught (PyExc SystemExit [] None, [''task'']))\<rparr>],
         heap = [TaskFuture_init sys_exit [] []]\<rparr>)"
    by (simp add: run_defs sys_exit_def SystemExit_def)
  moreover have "pool_run [0::nat] [Submit divide_by_zero [] [], Work 0, Work 0, Work 0]
     = ([Called 0 (Inl (PyExc ZeroDivisionError [PyStr ''division by zero''] None, [''task''])),
         WroteExcinfo 0 (ZeroDivisionError,
            PyExc ZeroDivisionError [PyStr ''division by zero''] None, [''task'']),
         SetFinished 0],
        \<lparr>work_queue = [],
         workers = [\<lparr>w_resource = 0, w_pc = Waiting\<rparr>],
         heap = [(TaskFuture_init divide_by_zero [] [])
                  \<lparr>f_finished := True,
                   f_excinfo := Some (ZeroDivisionError,
                      PyExc ZeroDivisionError [PyStr ''division by zero''] None, [''task''])\<rparr>]\<rparr>)"
    by (simp add: run_defs divide_by_zero_def ZeroDivisionError_def)
  ultimately show ?thesis
    by (simp add: TaskFuture_init_def)
qed

text \<open>
  What holds for every future of every execution of a pool: \<^verbatim>\<open>result()\<close> with no
  timeout does not return before the signal of the future has been set; once it has been
  set, \<^verbatim>\<open>result\<close> returns the value, or raises the error with the traceback, that the
  call of the task produced, whatever the timeout; every recorded call of the future is a
  call of its task on a resource, and all have the same outcome; after a call that raised
  an error that is not an instance of \<^verbatim>\<open>Exception\<close>, \<^verbatim>\<open>result()\<close> blocks in every later
  state; and a waiting worker that finds the future at the head of the queue takes it
  through its whole life in three steps, after which \<^verbatim>\<open>result()\<close> settles with the
  outcome of the task on that worker's resource, provided the life ends with the signal.
\<close>

lemma result_after_signal:
  assumes "a < length (heap (snd (pool_run resources acts)))"
  shows "(SetFinished a \<notin> set (fst (pool_run resources acts)) \<longrightarrow>
            TaskFuture_result py2 (heap (snd (pool_run resources acts)) ! a) None = Blocks)
     \<and> (SetFinished a \<in> set (fst (pool_run resources acts)) \<longrightarrow>
          (\<exists>out. Called a out \<in> set (fst (pool_run resources acts))
             \<and> TaskFuture_result py2 (heap (snd (pool_run resources acts)) ! a) timeout = settle out))
     \<and> (\<forall>out. Called a out \<in> set (fst (pool_run resources acts)) \<longrightarrow>
          (\<exists>r. out = fst (f_task (heap (snd (pool_run resources acts)) ! a) r
                            (f_args (heap (snd (pool_run resources acts)) ! a))
                            (f_kwargs (heap (snd (pool_run resources acts)) ! a))))
          \<and> (\<forall>out'. Called a out' \<in> set (fst (pool_run resources acts)) \<longrightarrow> out' = out))
     \<and> (\<forall>e. Called a (Inl e) \<in> set (fst (pool_run resources acts)) \<and> \<not> isinstance_Exception (fst e) \<longrightarrow>
          TaskFuture_result py2 (heap (snd (pool_run resources (acts @ later))) ! a) None = Blocks)
     \<and> (\<forall>i rest. work_queue (snd (pool_run resources acts)) = QFuture a # rest
          \<and> i < length (workers (snd (pool_run resources acts)))
          \<and> w_pc (workers (snd (pool_run resources acts)) ! i) = Waiting \<longrightarrow>
          fst (pool_run resources (acts @ [Work i, Work i, Work i]))
            = fst (pool_run resources acts)
              @ lifecycle a (fst (f_task (heap (snd (pool_run resources acts)) ! a)
                   (w_resource (workers (snd (pool_run resources acts)) ! i))
                   (f_args (heap (snd (pool_run resources acts)) ! a))
                   (f_kwargs (heap (snd (pool_run resources acts)) ! a))))
          \<and> (SetFinished a \<in> set (fst (pool_run resources (acts @ [Work i, Work i, Work i]))) \<longrightarrow>
               TaskFuture_result py2 (heap (snd (pool_run resources (acts @ [Work i, Work i, Work i]))) ! a) None
               = settle (fst (f_task (heap (snd (pool_run resources acts)) ! a)
                   (w_resource (workers (snd (pool_run resources acts)) ! i))
                   (f_args (heap (snd (pool_run resources acts)) ! a))
                   (f_kwargs (heap (snd (pool_run resources acts)) ! a))))))"
proof -
  obtain tr s where c: "pool_run resources acts = (tr, s)" by (cases "pool_run resources acts")
  have I: "Inv (tr, s)" using Inv_pool_run[of resources acts] c by simp
  have a: "a < length (heap s)" using assms c by simp
  note F = future_facts[OF I a]
  have 1: "TaskFuture_result py2 (heap s ! a) None = Blocks" if "SetFinished a \<notin> set tr"
    using that F(1) by (simp add: result_unfinished)
  have 2: "\<exists>out. Called a out \<in> set tr \<and> TaskFuture_result py2 (heap s ! a) timeout = settle out"
    if "SetFinished a \<in> set tr"
    using that F(1) F(3) by simp
  have 3: "(\<exists>r. out = fst (f_task (heap s ! a) r (f_args (heap s ! a)) (f_kwargs (heap s ! a))))
       \<and> (\<forall>out'. Called a out' \<in> set tr \<longrightarrow> out' = out)"
    if "Called a out \<in> set tr" for out
    using that F(2) calls_ok_pool_run[of resources acts] unfolding calls_ok_def c by auto
  have X: "\<And>later. Inv (exec later (tr, s))" using Inv_exec[OF I] .
  have L: "\<And>later. a < length (heap (snd (exec later (tr, s))))"
    using exec_heap_length[of "(tr, s)"] a by (simp add: less_le_trans)
  have 4: "TaskFuture_result py2 (heap (snd (exec later (tr, s))) ! a) None = Blocks"
    if "Called a (Inl e) \<in> set tr" "\<not> isinstance_Exception (fst e)" for e
  proof -
    obtain tr2 s2 where c2: "exec later (tr, s) = (tr2, s2)" by (cases "exec later (tr, s)")
    have "Called a (Inl e) \<in> set tr2"
      using exec_trace_mono[of "(tr, s)" later] that(1) c2 by auto
    then have "\<not> f_finished (heap s2 ! a)"
      using future_facts(4)[of tr2 s2 a e] X[of later] L[of later] that(2) c2 by simp
    then show ?thesis by (simp add: c2 result_unfinished)
  qed
  have 5: "fst (exec [Work i, Work i, Work i] (tr, s))
              = tr @ lifecycle a (fst (f_task (heap s ! a) (w_resource (workers s ! i)) (f_args (heap s ! a)) (f_kwargs (heap s ! a))))
          \<and> (SetFinished a \<in> set (fst (exec [Work i, Work i, Work i] (tr, s))) \<longrightarrow>
               TaskFuture_result py2 (heap (snd (exec [Work i, Work i, Work i] (tr, s))) ! a) None
               = settle (fst (f_task (heap s ! a) (w_resource (workers s ! i)) (f_args (heap s ! a)) (f_kwargs (heap s ! a)))))"
    if "work_queue s = QFuture a # rest" "i < length (workers s)" "w_pc (workers s ! i) = Waiting" for i rest
  proof -
    let ?out = "fst (f_task (heap s ! a) (w_resource (workers s ! i)) (f_args (heap s ! a)) (f_kwargs (heap s ! a)))"
    let ?c3 = "exec [Work i, Work i, Work i] (tr, s)"
    have t: "fst ?c3 = tr @ lifecycle a ?out"
      by (rule head_of_queue_trace[OF that a])
    obtain tr3 s3 where c3: "?c3 = (tr3, s3)" by (cases ?c3)
    have I3: "Inv (tr3, s3)" using X[of "[Work i, Work i, Work i]"] c3 by simp
    have a3: "a < length (heap s3)" using L[of "[Work i, Work i, Work i]"] c3 by simp
    have tr3: "tr3 = tr @ lifecycle a ?out" using t unfolding c3 by (simp only: fst_conv)
    have called: "Called a ?out \<in> set tr3" unfolding tr3 using lifecycle_Called[of a ?out] by simp
    have "TaskFuture_result py2 (heap s3 ! a) None = settle ?out" if "SetFinished a \<in> set tr3"
    proof -
      from future_facts(1)[OF I3 a3] that have "f_finished (heap s3 ! a)" by simp
      from future_facts(3)[OF I3 a3 this, of py2 None]
      obtain out where "Called a out \<in> set tr3" "TaskFuture_result py2 (heap s3 ! a) None = settle out"
        by blast
      then show ?thesis using future_facts(2)[OF I3 a3 called] by auto
    qed
    then show ?thesis unfolding c3 fst_conv snd_conv using tr3 by blast
  qed
  show ?thesis
    unfolding pool_run_append c using 1 2 3 4 5 by (simp only: fst_conv snd_conv) blast
qed

lemma result_after_signal_example:
  "(0::nat) < length (heap (snd (pool_run [5::nat] [Submit count_call [] []])))
   \<and> TaskFuture_result False (heap (snd (pool_run [5::nat] [Submit count_call [] []])) ! 0) None = Blocks
   \<and> fst (pool_run [5::nat] ([Submit count_call [] []] @ [Work 0, Work 0, Work 0]))
       = [Called 0 (Inr (PyInt 5)), WroteResult 0 (PyInt 5), SetFinished 0]
   \<and> TaskFuture_result False
        (heap (snd (pool_run [5::nat] ([Submit count_call [] []] @ [Work 0, Work 0, Work 0]))) ! 0) None
       = Returns (PyInt 5)
   \<and> TaskFuture_result False
        (heap (snd (pool_run [5::nat] ([Submit divide_by_zero [] []] @ [Work 0, Work 0, Work 0]))) ! 0) None
       = Raises (PyExc ZeroDivisionError [PyStr ''division by zero''] None, [''task''])"
  using result_after_signal[where a = 0 and resources = "[5::nat]"
      and acts = "[Submit count_call [] []]" and ?py2.0 = False and timeout = None and later = "[]"]
    result_after_signal[where a = 0 and resources = "[5::nat]"
      and acts = "[Submit divide_by_zero [] []]" and ?py2.0 = False and timeout = None and later = "[]"]
  by (simp add: run_defs count_call_def divide_by_zero_def ZeroDivisionError_def
      TaskFuture_result_def Event_wait_def)

text \<open>
  C1. A task that calls \<^verbatim>\<open>sys.exit()\<close>, submitted to a pool of one worker:
  \<^verbatim>\<open>submit\<close> creates the future for this task, enqueues it and returns it; the worker
  runs the task, \<^verbatim>\<open>except Exception\<close> does not catch \<^verbatim>\<open>SystemExit\<close> and the thread
  ends with the future unfinished. No thread is alive then, and under every further
  schedule \<^verbatim>\<open>result()\<close> with no timeout blocks: it neither returns a value nor raises
  the error of the task. A second task submitted behind the first, which would return a
  value, is never run, and its \<^verbatim>\<open>result()\<close> blocks as well. For a task that raises
  \<^verbatim>\<open>ZeroDivisionError\<close>, \<^verbatim>\<open>result()\<close> raises that error with its traceback.
\<close>

theorem result_blocks_after_SystemExit:
  "ThreadResourceExecutor_submit sys_exit [] [] (ThreadResourceExecutor_init [0::nat])
     = (Inr 0, \<lparr>work_queue = [QFuture 0], workers = [\<lparr>w_resource = 0, w_pc = Waiting\<rparr>],
                heap = [TaskFuture_init sys_exit [] []]\<rparr>)
   \<and> fst (pool_run [0::nat] [Submit sys_exit [] [], Work 0, Work 0])
     = [Called 0 (Inl (PyExc SystemExit [] None, [''task'']))]
   \<and> \<not> any_alive (snd (pool_run [0::nat] [Submit sys_exit [] [], Work 0, Work 0]))
   \<and> TaskFuture_result py2
        (heap (run_workers sched (snd (pool_run [0::nat] [Submit sys_exit [] [], Work 0, Work 0]))) ! 0)
        None = Blocks
   \<and> \<not> any_alive (snd (pool_run [0::nat]
          [Submit sys_exit [] [], Submit count_call [] [], Work 0, Work 0]))
   \<and> TaskFuture_result py2
        (heap (run_workers sched (snd (pool_run [0::nat]
          [Submit sys_exit [] [], Submit count_call [] [], Work 0, Work 0]))) ! 1)
        None = Blocks
   \<and> TaskFuture_result py2
        (heap (snd (pool_run [0::nat] [Submit divide_by_zero [] [], Work 0, Work 0, Work 0])) ! 0) None
     = Raises (PyExc ZeroDivisionError [PyStr ''division by zero''] None, [''task''])"
proof -
  let ?s1 = "snd (pool_run [0::nat] [Submit sys_exit [] [], Work 0, Work 0])"
  let ?s2 = "snd (pool_run [0::nat] [Submit sys_exit [] [], Submit count_call [] [], Work 0, Work 0])"
  have d1: "\<not> any_alive ?s1" and d2: "\<not> any_alive ?s2"
    by (simp_all add: run_defs sys_exit_def SystemExit_def)
  have r1: "TaskFuture_result py2 (heap ?s1 ! 0) None = Blocks"
    and r2: "TaskFuture_result py2 (heap ?s2 ! 1) None = Blocks"
    by (simp_all add: run_defs sys_exit_def SystemExit_def TaskFuture_result_def Event_wait_def)
  have "TaskFuture_result py2 (heap (run_workers sched ?s1) ! 0) None = Blocks"
    "TaskFuture_result py2 (heap (run_workers sched ?s2) ! 1) None = Blocks"
    unfolding dead_pool_stays[OF d1] dead_pool_stays[OF d2] using r1 r2 by blast+
  moreover have "ThreadResourceExecutor_submit sys_exit [] [] (ThreadResourceExecutor_init [0::nat])
     = (Inr 0, \<lparr>work_queue = [QFuture 0], workers = [\<lparr>w_resource = 0, w_pc = Waiting\<rparr>],
                heap = [TaskFuture_init sys_exit [] []]\<rparr>)"
    by (simp add: run_defs)
  moreover have "fst (pool_run [0::nat] [Submit sys_exit [] [], Work 0, Work 0])
     = [Called 0 (Inl (PyExc SystemExit [] None, [''task'']))]"
    by (simp add: run_defs sys_exit_def SystemExit_def)
  moreover have "TaskFuture_result py2
        (heap (snd (pool_run [0::nat] [Submit divide_by_zero [] [], Work 0, Work 0, Work 0])) ! 0) None
     = Raises (PyExc ZeroDivisionError [PyStr ''division by zero''] None, [''task''])"
    by (simp add: run_defs divide_by_zero_def ZeroDivisionError_def TaskFuture_result_def Event_wait_def)
  ultimately show ?thesis using d1 d2 by blast
qed

text \<open>
  C2, amended. From every state that an execution of a pool reaches: when \<^verbatim>\<open>shutdown\<close>
  returns, no worker is alive, and a second \<^verbatim>\<open>shutdown\<close> then returns at once with the
  state unchanged, nothing put on the queue; there is a schedule of the workers under
  which \<^verbatim>\<open>shutdown\<close> returns after one round; and each round that finds a worker alive
  puts \<^verbatim>\<open>None\<close> on the queue once per worker of the pool, alive or not, before the workers
  run on.
\<close>

theorem shutdown_stops_all_workers:
  "(\<forall>s'. ThreadResourceExecutor_shutdown wait scheds (snd (pool_run resources acts)) = Some s' \<longrightarrow>
        \<not> any_alive s'
        \<and> ThreadResourceExecutor_shutdown wait' scheds' s' = Some s')
   \<and> (\<exists>sched s'. ThreadResourceExecutor_shutdown wait (sched # scheds) (snd (pool_run resources acts)) = Some s')
   \<and> (any_alive (snd (pool_run resources acts)) \<longrightarrow>
        ThreadResourceExecutor_shutdown wait (sched # scheds) (snd (pool_run resources acts))
          = ThreadResourceExecutor_shutdown wait scheds
              (run_workers sched ((snd (pool_run resources acts))
                 \<lparr>work_queue := work_queue (snd (pool_run resources acts))
                    @ replicate (ThreadResourceExecutor_num_workers (snd (pool_run resources acts))) QNone\<rparr>)))"
proof -
  obtain tr s where c: "pool_run resources acts = (tr, s)" by (cases "pool_run resources acts")
  have I: "Inv (tr, s)" using Inv_pool_run[of resources acts] c by simp
  have 1: "\<not> any_alive s' \<and> shutdown_loop scheds' s' = Some s'"
    if "shutdown_loop scheds s = Some s'" for s'
    using shutdown_returns_dead[OF that] shutdown_noop by blast
  have 2: "\<exists>sched s'. shutdown_loop (sched # scheds) s = Some s'"
  proof (cases "any_alive s")
    case False
    then show ?thesis by simp
  next
    case True
    from drain_all[OF put_sentinels_ok[OF InvD(1,2)[OF I]]]
    obtain sched where "\<not> any_alive (run_workers sched (put_sentinels s))" ..
    then have "shutdown_loop (sched # scheds) s = Some (run_workers sched (put_sentinels s))"
      using True shutdown_noop by simp
    then show ?thesis by blast
  qed
  have 3: "shutdown_loop (sched # scheds) s
          = shutdown_loop scheds
              (run_workers sched (s\<lparr>work_queue := work_queue s @ replicate (ThreadResourceExecutor_num_workers s) QNone\<rparr>))"
    if "any_alive s"
    using that by (simp add: put_sentinels_def ThreadResourceExecutor_num_workers_def)
  show ?thesis unfolding ThreadResourceExecutor_shutdown_def using 1 2 3 by (simp add: c)
qed

theorem shutdown_stops_all_workers_witness:
  "ThreadResourceExecutor_shutdown True [[0, 1]] (snd (pool_run [0::nat, 0] []))
     = Some \<lparr>work_queue = [],
             workers = [\<lparr>w_resource = 0, w_pc = Stopped\<rparr>, \<lparr>w_resource = 0, w_pc = Stopped\<rparr>],
             heap = []\<rparr>
   \<and> \<not> any_alive \<lparr>work_queue = [],
             workers = [\<lparr>w_resource = 0::nat, w_pc = Stopped\<rparr>, \<lparr>w_resource = 0, w_pc = Stopped\<rparr>],
             heap = []\<rparr>
   \<and> ThreadResourceExecutor_shutdown True [] \<lparr>work_queue = [],
             workers = [\<lparr>w_resource = 0::nat, w_pc = Stopped\<rparr>, \<lparr>w_resource = 0, w_pc = Stopped\<rparr>],
             heap = []\<rparr>
     = Some \<lparr>work_queue = [],
             workers = [\<lparr>w_resource = 0, w_pc = Stopped\<rparr>, \<lparr>w_resource = 0, w_pc = Stopped\<rparr>],
             heap = []\<rparr>"
  using shutdown_stops_all_workers[where wait = True and wait' = True and scheds = "[[0, 1]]" and resources = "[0::nat, 0]"
      and acts = "[]" and scheds' = "[]" and sched = "[0, 1]"]
  by (simp add: run_defs ThreadResourceExecutor_shutdown_def)

text \<open>
  A pool of two workers, after a first round of \<^verbatim>\<open>shutdown\<close> during which only worker 0
  ran: one worker is alive, one \<^verbatim>\<open>None\<close> is left on the queue, and the second round puts
  two more on it, not one.
\<close>

theorem shutdown_stops_all_workers_counterexample:
  "length (filter is_alive
      (workers (run_workers [0] (put_sentinels (ThreadResourceExecutor_init [0::nat, 0]))))) = 1
   \<and> work_queue (run_workers [0] (put_sentinels (ThreadResourceExecutor_init [0::nat, 0]))) = [QNone]
   \<and> work_queue (put_sentinels (run_workers [0] (put_sentinels (ThreadResourceExecutor_init [0::nat, 0]))))
       = [QNone, QNone, QNone]
   \<and> ThreadResourceExecutor_shutdown True [[0], [1]] (ThreadResourceExecutor_init [0::nat, 0])
       = Some \<lparr>work_queue = [QNone, QNone],
               workers = [\<lparr>w_resource = 0, w_pc = Stopped\<rparr>, \<lparr>w_resource = 0, w_pc = Stopped\<rparr>],
               heap = []\<rparr>"
  by (simp add: run_defs ThreadResourceExecutor_shutdown_def)

text \<open>
  C4. A future that has just been submitted: \<^verbatim>\<open>result(timeout)\<close> whose wait expires
  raises nothing and returns \<^verbatim>\<open>None\<close>, the initial content of the result slot, as it
  would for a finished task that returned \<^verbatim>\<open>None\<close>. The future is not changed by the
  call: once the worker has run the task, \<^verbatim>\<open>result()\<close> returns the task's value.
\<close>

theorem result_timeout_returns_None:
  "TaskFuture_result py2 (TaskFuture_init task args kwargs) (Some t) = Returns PyNone
   \<and> TaskFuture_result False (heap (snd (pool_run [5::nat] [Submit count_call [] []])) ! 0) (Some (1 / 1000))
       = Returns PyNone
   \<and> TaskFuture_result False
        (heap (snd (pool_run [5::nat] [Submit count_call [] [], Work 0, Work 0, Work 0])) ! 0) None
       = Returns (PyInt 5)"
  by (simp add: run_defs count_call_def TaskFuture_result_def Event_wait_def)

text \<open>
  C6. \<^verbatim>\<open>executor.map(echo, [1, 2, 3])\<close> on a pool of one worker: the first \<^verbatim>\<open>next\<close>
  submits one task, for the whole list, and waits; once the worker has run it, \<^verbatim>\<open>next\<close>
  yields the result of that one call, and the generator is then exhausted. It does not
  submit one task per item.
\<close>

theorem ThreadResourceExecutor_map_whole_iterable:
  "ThreadResourceExecutor_map_next False
       (ThreadResourceExecutor_map echo [PyList [PyInt 1, PyInt 2, PyInt 3]])
       (ThreadResourceExecutor_init [0::nat])
     = (None, PG_started [0],
        \<lparr>work_queue = [QFuture 0], workers = [\<lparr>w_resource = 0, w_pc = Waiting\<rparr>],
         heap = [TaskFuture_init echo [PyList [PyInt 1, PyInt 2, PyInt 3]] []]\<rparr>)
   \<and> fst (ThreadResourceExecutor_map_next False (PG_started [0])
        (run_workers [0, 0, 0]
           \<lparr>work_queue = [QFuture 0], workers = [\<lparr>w_resource = 0::nat, w_pc = Waiting\<rparr>],
            heap = [TaskFuture_init echo [PyList [PyInt 1, PyInt 2, PyInt 3]] []]\<rparr>))
     = Some (Yield (PyList [PyList [PyInt 1, PyInt 2, PyInt 3]]))
   \<and> fst (snd (ThreadResourceExecutor_map_next False (PG_started [0])
        (run_workers [0, 0, 0]
           \<lparr>work_queue = [QFuture 0], workers = [\<lparr>w_resource = 0::nat, w_pc = Waiting\<rparr>],
            heap = [TaskFuture_init echo [PyList [PyInt 1, PyInt 2, PyInt 3]] []]\<rparr>)))
     = PG_started []
   \<and> fst (ThreadResourceExecutor_map_next False (PG_started []) s) = Some StopIteration"
  by (simp add: ThreadResourceExecutor_map_next_def ThreadResourceExecutor_map_def map_resume_def
      run_defs echo_def TaskFuture_result_def Event_wait_def)

end
